theory Spec2Isabelle
  imports Main "HOL-Library.Multiset"
begin

section \<open>Python strings\<close>

text \<open>
  A Python \<open>str\<close> is modelled as a \<open>string\<close>; a \<open>char\<close> stands for the code point of
  the same number, so the model covers the strings over U+0000..U+00FF.
\<close>

definition isspace :: "char \<Rightarrow> bool" where
  \<comment> \<open>\<open>str.isspace\<close> on one character: TAB..CR, FS..US, SPACE, NEL, NBSP.\<close>
  "isspace c =
     (let n = (of_char c :: nat)
      in (9 \<le> n \<and> n \<le> 13) \<or> (28 \<le> n \<and> n \<le> 32) \<or> n = 133 \<or> n = 160)"

definition is_slash :: "char \<Rightarrow> bool" where
  "is_slash c = (c = CHR ''/'')"

definition lstrip :: "(char \<Rightarrow> bool) \<Rightarrow> string \<Rightarrow> string" where
  "lstrip P s = dropWhile P s"

definition rstrip :: "(char \<Rightarrow> bool) \<Rightarrow> string \<Rightarrow> string" where
  "rstrip P s = rev (dropWhile P (rev s))"

definition strip :: "(char \<Rightarrow> bool) \<Rightarrow> string \<Rightarrow> string" where
  "strip P s = rstrip P (lstrip P s)"

definition split1 :: "char \<Rightarrow> string \<Rightarrow> string \<times> string" where
  \<comment> \<open>\<open>s.split(c, 1)\<close> for a string that contains \<open>c\<close>; also \<open>s[:i], s[i+1:]\<close> at \<open>i = s.find(c)\<close>.\<close>
  "split1 c s = (takeWhile (\<lambda>x. x \<noteq> c) s, drop 1 (dropWhile (\<lambda>x. x \<noteq> c) s))"

fun py_split :: "char \<Rightarrow> string \<Rightarrow> string list" where
  \<comment> \<open>\<open>s.split(c)\<close>; the result is never empty, so the last case is not reached\<close>
  "py_split c [] = [[]]"
| "py_split c (x # xs) =
     (if x = c then [] # py_split c xs
      else (case py_split c xs of
              p # ps \<Rightarrow> (x # p) # ps
            | [] \<Rightarrow> [[x]]))"

fun join :: "string \<Rightarrow> string list \<Rightarrow> string" where
  \<comment> \<open>\<open>sep.join(xs)\<close>\<close>
  "join sep [] = []"
| "join sep [x] = x"
| "join sep (x # y # ys) = x @ sep @ join sep (y # ys)"

definition startswith :: "string \<Rightarrow> string \<Rightarrow> bool" where
  "startswith s p = (take (length p) s = p)"

section \<open>The standard library: \<open>ipaddress\<close> and \<open>urllib.parse\<close>\<close>

text \<open>
  The program imports \<open>urljoin\<close>, \<open>urlparse\<close> and \<open>urldefrag\<close> from the Python standard
  library. They are transcribed here from CPython 3.11 (\<open>Lib/urllib/parse.py\<close> and the
  validation of a bracketed host in \<open>Lib/ipaddress.py\<close>), on \<open>str\<close> arguments and with
  \<open>allow_fragments\<close> at its default \<open>True\<close>. The library's \<open>_checknetloc\<close> only rejects
  characters beyond U+00FF and is therefore omitted.
\<close>

text \<open>
  An exception that no handler of the program catches: the \<open>ValueError\<close> that
  \<open>urllib.parse\<close> raises, or an exception of another class, given by the name of the class.
\<close>

datatype exn = ValueError | Other_exception string

definition ascii_digit :: "char \<Rightarrow> bool" where
  "ascii_digit c = (let n = (of_char c :: nat) in 48 \<le> n \<and> n \<le> 57)"

definition ascii_alpha :: "char \<Rightarrow> bool" where
  "ascii_alpha c = (let n = (of_char c :: nat) in (65 \<le> n \<and> n \<le> 90) \<or> (97 \<le> n \<and> n \<le> 122))"

definition hex_digit :: "char \<Rightarrow> bool" where
  "hex_digit c =
     (let n = (of_char c :: nat) in ascii_digit c \<or> (65 \<le> n \<and> n \<le> 70) \<or> (97 \<le> n \<and> n \<le> 102))"

definition ascii_lower :: "char \<Rightarrow> char" where
  "ascii_lower c = (let n = (of_char c :: nat) in if 65 \<le> n \<and> n \<le> 90 then char_of (n + 32) else c)"

definition scheme_char :: "char \<Rightarrow> bool" where
  \<comment> \<open>\<open>scheme_chars\<close>\<close>
  "scheme_char c = (ascii_alpha c \<or> ascii_digit c \<or> c = CHR ''+'' \<or> c = CHR ''-'' \<or> c = CHR ''.'')"

definition c0_control_or_space :: "char \<Rightarrow> bool" where
  \<comment> \<open>\<open>_WHATWG_C0_CONTROL_OR_SPACE\<close>\<close>
  "c0_control_or_space c = ((of_char c :: nat) \<le> 32)"

definition unsafe_url_byte :: "char \<Rightarrow> bool" where
  \<comment> \<open>\<open>_UNSAFE_URL_BYTES_TO_REMOVE\<close>: TAB, CR, LF\<close>
  "unsafe_url_byte c = (let n = (of_char c :: nat) in n = 9 \<or> n = 13 \<or> n = 10)"

definition uses_relative :: "string list" where
  "uses_relative = ['''', ''ftp'', ''http'', ''gopher'', ''nntp'', ''imap'',
     ''wais'', ''file'', ''https'', ''shttp'', ''mms'',
     ''prospero'', ''rtsp'', ''rtsps'', ''rtspu'', ''sftp'',
     ''svn'', ''svn+ssh'', ''ws'', ''wss'']"

definition uses_netloc :: "string list" where
  "uses_netloc = ['''', ''ftp'', ''http'', ''gopher'', ''nntp'', ''telnet'',
     ''imap'', ''wais'', ''file'', ''mms'', ''https'', ''shttp'',
     ''snews'', ''prospero'', ''rtsp'', ''rtsps'', ''rtspu'', ''rsync'',
     ''svn'', ''svn+ssh'', ''sftp'', ''nfs'', ''git'', ''git+ssh'',
     ''ws'', ''wss'']"

definition uses_params :: "string list" where
  "uses_params = ['''', ''ftp'', ''hdl'', ''prospero'', ''http'', ''imap'',
     ''https'', ''shttp'', ''rtsp'', ''rtsps'', ''rtspu'', ''sip'',
     ''sips'', ''mms'', ''sftp'', ''tel'']"

subsection \<open>Bracketed hosts\<close>

definition parse_octet_ok :: "string \<Rightarrow> bool" where
  \<comment> \<open>\<open>IPv4Address._parse_octet\<close> returns (does not raise)\<close>
  "parse_octet_ok s =
     (s \<noteq> [] \<and> list_all ascii_digit s \<and> length s \<le> 3
      \<and> \<not> (s \<noteq> ''0'' \<and> hd s = CHR ''0'')
      \<and> fold (\<lambda>c n. 10 * n + ((of_char c :: nat) - 48)) s 0 \<le> 255)"

definition ipv4_ok :: "string \<Rightarrow> bool" where
  \<comment> \<open>\<open>IPv4Address(s)\<close> returns\<close>
  "ipv4_ok s =
     (CHR ''/'' \<notin> set s \<and> s \<noteq> []
      \<and> length (py_split CHR ''.'' s) = 4 \<and> list_all parse_octet_ok (py_split CHR ''.'' s))"

definition parse_hextet_ok :: "string \<Rightarrow> bool" where
  \<comment> \<open>\<open>IPv6Address._parse_hextet\<close> returns; \<open>int('', 16)\<close> raises\<close>
  "parse_hextet_ok s = (list_all hex_digit s \<and> length s \<le> 4 \<and> s \<noteq> [])"

definition ipv6_parts_ok :: "string list \<Rightarrow> bool" where
  \<comment> \<open>\<open>IPv6Address._ip_int_from_string\<close> from the search for \<open>::\<close> on\<close>
  "ipv6_parts_ok parts =
     (let n = length parts;
          skips = filter (\<lambda>i. parts ! i = []) [1 ..< n - 1]
      in if 1 < length skips then False
         else if skips \<noteq> [] then
           (let skip_index = hd skips;
                hi0 = skip_index;
                lo0 = n - skip_index - 1;
                hi = (if hd parts = [] then hi0 - 1 else hi0);
                lo = (if last parts = [] then lo0 - 1 else lo0)
            in \<not> (hd parts = [] \<and> hi \<noteq> 0) \<and> \<not> (last parts = [] \<and> lo \<noteq> 0)
               \<and> hi + lo < 8
               \<and> list_all parse_hextet_ok (take hi parts)
               \<and> list_all parse_hextet_ok (drop (n - lo) parts))
         else n = 8 \<and> hd parts \<noteq> [] \<and> last parts \<noteq> [] \<and> list_all parse_hextet_ok parts)"

definition ipv6_ok :: "string \<Rightarrow> bool" where
  \<comment> \<open>\<open>IPv6Address(s)\<close> returns\<close>
  "ipv6_ok s =
     (if CHR ''/'' \<in> set s then False
      else if CHR ''%'' \<in> set s
              \<and> (snd (split1 CHR ''%'' s) = [] \<or> CHR ''%'' \<in> set (snd (split1 CHR ''%'' s)))
      then False
      else
        (let ip_str = fst (split1 CHR ''%'' s);
             parts = py_split CHR '':'' ip_str
         in if ip_str = [] then False
            else if length parts < 3 then False
            else if CHR ''.'' \<in> set (last parts) then
              ipv4_ok (last parts)
              \<and> length (butlast parts @ [''0'', ''0'']) \<le> 9
              \<and> ipv6_parts_ok (butlast parts @ [''0'', ''0''])
            else length parts \<le> 9 \<and> ipv6_parts_ok parts))"

definition check_bracketed_host :: "string \<Rightarrow> bool" where
  \<comment> \<open>\<open>_check_bracketed_host\<close> returns; an IPv4 address in brackets is refused\<close>
  "check_bracketed_host hostname =
     (if startswith hostname ''v'' then
        (let r = drop 1 hostname;
             h = takeWhile hex_digit r;
             t = dropWhile hex_digit r
         in h \<noteq> [] \<and> startswith t ''.'' \<and> drop 1 t \<noteq> [])
      else \<not> ipv4_ok hostname \<and> ipv6_ok hostname)"

subsection \<open>Splitting and joining URLs\<close>

definition splitnetloc :: "string \<Rightarrow> string \<times> string" where
  \<comment> \<open>\<open>_splitnetloc(url, 2)\<close>\<close>
  "splitnetloc url =
     (let delim = (\<lambda>c. c = CHR ''/'' \<or> c = CHR ''?'' \<or> c = CHR ''#'')
      in (takeWhile (\<lambda>c. \<not> delim c) (drop 2 url), dropWhile (\<lambda>c. \<not> delim c) (drop 2 url)))"

definition urlsplit :: "string \<Rightarrow> string \<Rightarrow> exn + (string \<times> string \<times> string \<times> string \<times> string)" where
  "urlsplit url0 scheme0 =
     (let url1 = filter (\<lambda>c. \<not> unsafe_url_byte c) (lstrip c0_control_or_space url0);
          scheme1 = filter (\<lambda>c. \<not> unsafe_url_byte c) (strip c0_control_or_space scheme0);
          i = length (takeWhile (\<lambda>c. c \<noteq> CHR '':'') url1);
          found = (CHR '':'' \<in> set url1 \<and> 0 < i \<and> ascii_alpha (hd url1)
                   \<and> list_all scheme_char (take i url1));
          scheme = (if found then map ascii_lower (take i url1) else scheme1);
          url2 = (if found then drop (i + 1) url1 else url1);
          has_netloc = (take 2 url2 = ''//'');
          netloc = (if has_netloc then fst (splitnetloc url2) else []);
          url3 = (if has_netloc then snd (splitnetloc url2) else url2);
          open_br = (CHR ''['' \<in> set netloc);
          close_br = (CHR '']'' \<in> set netloc)
      in if has_netloc \<and> ((open_br \<and> \<not> close_br) \<or> (close_br \<and> \<not> open_br)) then Inl ValueError
         else if has_netloc \<and> open_br \<and> close_br
                 \<and> \<not> check_bracketed_host
                       (takeWhile (\<lambda>c. c \<noteq> CHR '']'') (snd (split1 CHR ''['' netloc)))
         then Inl ValueError
         else
           (let fragment = (if CHR ''#'' \<in> set url3 then snd (split1 CHR ''#'' url3) else []);
                url4 = (if CHR ''#'' \<in> set url3 then fst (split1 CHR ''#'' url3) else url3);
                query = (if CHR ''?'' \<in> set url4 then snd (split1 CHR ''?'' url4) else []);
                url5 = (if CHR ''?'' \<in> set url4 then fst (split1 CHR ''?'' url4) else url4)
            in Inr (scheme, netloc, url5, query, fragment)))"

definition splitparams :: "string \<Rightarrow> string \<times> string" where
  \<comment> \<open>\<open>_splitparams\<close>: the first semicolon after the last slash\<close>
  "splitparams url =
     (if CHR ''/'' \<in> set url then
        (let tl_seg = rev (takeWhile (\<lambda>c. c \<noteq> CHR ''/'') (rev url));
             front = take (length url - length tl_seg) url
         in if CHR '';'' \<notin> set tl_seg then (url, [])
            else (front @ fst (split1 CHR '';'' tl_seg), snd (split1 CHR '';'' tl_seg)))
      else split1 CHR '';'' url)"

definition urlparse ::
  "string \<Rightarrow> string \<Rightarrow> exn + (string \<times> string \<times> string \<times> string \<times> string \<times> string)" where
  "urlparse url scheme0 =
     (case urlsplit url scheme0 of
        Inl e \<Rightarrow> Inl e
      | Inr (scheme, netloc, url', query, fragment) \<Rightarrow>
          if scheme \<in> set uses_params \<and> CHR '';'' \<in> set url'
          then Inr (scheme, netloc, fst (splitparams url'), snd (splitparams url'), query, fragment)
          else Inr (scheme, netloc, url', [], query, fragment))"

definition urlunsplit :: "string \<times> string \<times> string \<times> string \<times> string \<Rightarrow> string" where
  "urlunsplit c =
     (case c of (scheme, netloc, url0, query, fragment) \<Rightarrow>
        (let url1 =
               (if netloc \<noteq> [] \<or> (scheme \<noteq> [] \<and> scheme \<in> set uses_netloc) \<or> take 2 url0 = ''//''
                then ''//'' @ netloc @ (if url0 \<noteq> [] \<and> take 1 url0 \<noteq> ''/'' then ''/'' @ url0 else url0)
                else url0);
             url2 = (if scheme \<noteq> [] then scheme @ '':'' @ url1 else url1);
             url3 = (if query \<noteq> [] then url2 @ ''?'' @ query else url2)
         in if fragment \<noteq> [] then url3 @ ''#'' @ fragment else url3))"

definition urlunparse :: "string \<times> string \<times> string \<times> string \<times> string \<times> string \<Rightarrow> string" where
  "urlunparse c =
     (case c of (scheme, netloc, url, params, query, fragment) \<Rightarrow>
        urlunsplit (scheme, netloc, (if params \<noteq> [] then url @ '';'' @ params else url), query, fragment))"

definition resolve_segments :: "string list \<Rightarrow> string list" where
  \<comment> \<open>the loop of \<open>urljoin\<close> over \<open>segments\<close>; a \<open>..\<close> on an empty \<open>resolved_path\<close> is ignored\<close>
  "resolve_segments segments =
     fold (\<lambda>seg resolved_path.
             if seg = ''..'' then butlast resolved_path
             else if seg = ''.'' then resolved_path
             else resolved_path @ [seg]) segments []"

definition urljoin :: "string \<Rightarrow> string \<Rightarrow> exn + string" where
  "urljoin base url =
     (if base = [] then Inr url
      else if url = [] then Inr base
      else
        case urlparse base [] of
          Inl e \<Rightarrow> Inl e
        | Inr (bscheme, bnetloc, bpath, bparams, bquery, bfragment) \<Rightarrow>
       (case urlparse url bscheme of
          Inl e \<Rightarrow> Inl e
        | Inr (scheme, netloc0, path0, params0, query0, fragment) \<Rightarrow>
            if scheme \<noteq> bscheme \<or> scheme \<notin> set uses_relative then Inr url
            else if scheme \<in> set uses_netloc \<and> netloc0 \<noteq> [] then
              Inr (urlunparse (scheme, netloc0, path0, params0, query0, fragment))
            else
              (let netloc = (if scheme \<in> set uses_netloc then bnetloc else netloc0)
               in if path0 = [] \<and> params0 = [] then
                    Inr (urlunparse (scheme, netloc, bpath, bparams,
                           (if query0 = [] then bquery else query0), fragment))
                  else
                    (let base_parts0 = py_split CHR ''/'' bpath;
                         base_parts = (if last base_parts0 \<noteq> [] then butlast base_parts0 else base_parts0);
                         segments0 = base_parts @ py_split CHR ''/'' path0;
                         segments =
                           (if take 1 path0 = ''/'' then py_split CHR ''/'' path0
                            else if length segments0 < 2 then segments0
                            else hd segments0 # filter (\<lambda>s. s \<noteq> []) (butlast (tl segments0))
                                 @ [last segments0]);
                         resolved0 = resolve_segments segments;
                         resolved_path =
                           (if last segments = ''.'' \<or> last segments = ''..'' then resolved0 @ [[]]
                            else resolved0);
                         joined = join ''/'' resolved_path
                     in Inr (urlunparse (scheme, netloc, (if joined = [] then ''/'' else joined),
                               params0, query0, fragment))))))"

definition urldefrag :: "string \<Rightarrow> exn + (string \<times> string)" where
  "urldefrag url =
     (if CHR ''#'' \<in> set url then
        (case urlparse url [] of
           Inl e \<Rightarrow> Inl e
         | Inr (s, n, p, a, q, frag) \<Rightarrow> Inr (urlunparse (s, n, p, a, q, []), frag))
      else Inr (url, []))"

section \<open>URL normalizer and scope filter\<close>

definition normalize_url :: "string \<Rightarrow> string \<Rightarrow> exn + string" where
  "normalize_url base link =
     (case urljoin base link of
        Inl e \<Rightarrow> Inl e
      | Inr joined \<Rightarrow>
     (case urldefrag joined of
        Inl e \<Rightarrow> Inl e
      | Inr (clean, _) \<Rightarrow> Inr (rstrip is_slash (strip isspace clean))))"

definition netloc_of :: "string \<Rightarrow> exn + string" where
  \<comment> \<open>\<open>urlparse(url).netloc\<close>\<close>
  "netloc_of url =
     (case urlparse url [] of
        Inl e \<Rightarrow> Inl e
      | Inr (scheme, netloc, path, params, query, fragment) \<Rightarrow> Inr netloc)"

definition is_internal :: "string \<Rightarrow> string \<Rightarrow> exn + bool" where
  "is_internal base_url url =
     (case netloc_of url of
        Inl e \<Rightarrow> Inl e
      | Inr n \<Rightarrow>
     (case netloc_of base_url of
        Inl e \<Rightarrow> Inl e
      | Inr bn \<Rightarrow> Inr (n = bn)))"

section \<open>Shared state\<close>

text \<open>
  The module's globals. \<open>stats\<close> is a \<open>defaultdict(int)\<close> that is only ever incremented,
  that is, a multiset of keys: \<open>count (stats s) k\<close> is \<open>stats[k]\<close>. (Reading a missing key, as
  the progress table does, stores the count 0 for it, which changes no count.) An element of \<open>broken\<close>
  carries an \<open>int\<close> status or the \<open>str\<close> of an exception. \<open>realtime_export_file\<close> is
  \<open>None\<close> or the rows written so far to the open file. \<open>requests\<close> is not a variable of the
  program: it records, in order, the URLs that \<open>requests.get\<close> was called with.
\<close>

datatype error = Status int | Message string

datatype stat_key = Code int | Error_key

datatype cell = Int_cell int | Str_cell string

type_synonym row = "cell list"

type_synonym entry = "string \<times> int \<times> string"

type_synonym broken_link = "string \<times> error \<times> string"

record state =
  visited :: "string set"
  discovered :: "string set"
  broken :: "broken_link list"
  stats :: "stat_key multiset"
  realtime_export_file :: "row list option"
  requests :: "string list"

text \<open>
  What \<open>BeautifulSoup(response.text, "html.parser")\<close> and \<open>find_all("a", href=True)\<close> make
  of the text of a response: the \<open>href\<close> values of the \<open>a\<close> tags, in document order; or the
  parser raises an exception, which is not a \<open>RequestException\<close>.
\<close>

datatype page = Links "string list" | Unparsable exn

text \<open>
  What \<open>requests.get(url, timeout=10)\<close> does: it returns a response, given by its
  \<open>status_code\<close> and its page; or it raises a \<open>RequestException\<close>, given by its \<open>str\<close>;
  or it raises an exception of a class that does not derive from \<open>RequestException\<close>,
  which the handler of line 106 does not catch.
\<close>

datatype response = Response int page | Request_exception string | Raises exn

definition export_row_realtime :: "cell \<Rightarrow> string \<Rightarrow> string \<Rightarrow> state \<Rightarrow> state" where
  "export_row_realtime err target_url source_url s =
     (case realtime_export_file s of
        None \<Rightarrow> s
      | Some rows \<Rightarrow>
          s\<lparr>realtime_export_file := Some (rows @ [[err, Str_cell target_url, Str_cell source_url]])\<rparr>)"

section \<open>The fetch-and-extract task\<close>

subsection \<open>The blocks that run under the lock\<close>

definition gate :: "string \<Rightarrow> int \<Rightarrow> int \<Rightarrow> state \<Rightarrow> bool \<times> state" where
  \<comment> \<open>lines 77-80; \<open>False\<close> is the early \<open>return []\<close>\<close>
  "gate url depth max_depth s =
     (if url \<in> visited s \<or> depth > max_depth then (False, s)
      else (True, s\<lparr>visited := insert url (visited s)\<rparr>))"

definition count_status :: "int \<Rightarrow> state \<Rightarrow> state" where
  \<comment> \<open>lines 86-87\<close>
  "count_status status s = s\<lparr>stats := add_mset (Code status) (stats s)\<rparr>"

definition record_broken :: "string \<Rightarrow> int \<Rightarrow> string \<Rightarrow> state \<Rightarrow> state" where
  \<comment> \<open>lines 90-92\<close>
  "record_broken url status source_url s =
     export_row_realtime (Int_cell status) url source_url
       (s\<lparr>broken := broken s @ [(url, Status status, source_url)]\<rparr>)"

definition record_error :: "string \<Rightarrow> string \<Rightarrow> string \<Rightarrow> state \<Rightarrow> state" where
  \<comment> \<open>lines 107-110\<close>
  "record_error url e source_url s =
     export_row_realtime (Str_cell ''ERROR'') url source_url
       (s\<lparr>stats := add_mset Error_key (stats s),
          broken := broken s @ [(url, Message e, source_url)]\<rparr>)"

definition discover ::
  "string \<Rightarrow> string \<Rightarrow> int \<Rightarrow> string \<Rightarrow> entry list \<Rightarrow> state \<Rightarrow> (exn + entry list) \<times> state" where
  \<comment> \<open>lines 97-104: the body of the loop for one tag; a \<open>ValueError\<close> of the library is not caught\<close>
  "discover url base_url depth tag_href result_links s =
     (case normalize_url url tag_href of
        Inl e \<Rightarrow> (Inl e, s)
      | Inr href \<Rightarrow>
          if startswith href ''mailto:'' \<or> startswith href ''tel:'' then (Inr result_links, s)
          else
            (case is_internal base_url href of
               Inl e \<Rightarrow> (Inl e, s)
             | Inr internal \<Rightarrow>
                 if internal \<and> href \<notin> discovered s
                 then (Inr (result_links @ [(href, depth + 1, url)]),
                       s\<lparr>discovered := insert href (discovered s)\<rparr>)
                 else (Inr result_links, s)))"

subsection \<open>One call, run to its end\<close>

fun extract_links ::
  "string \<Rightarrow> string \<Rightarrow> int \<Rightarrow> string list \<Rightarrow> entry list \<Rightarrow> state \<Rightarrow> (exn + entry list) \<times> state" where
  \<comment> \<open>lines 96-104 and the \<open>return result_links\<close> of line 112\<close>
  "extract_links url base_url depth [] result_links s = (Inr result_links, s)"
| "extract_links url base_url depth (tag_href # tags) result_links s =
     (case discover url base_url depth tag_href result_links s of
        (Inl e, s') \<Rightarrow> (Inl e, s')
      | (Inr result_links', s') \<Rightarrow> extract_links url base_url depth tags result_links' s')"

definition fetch_and_extract ::
  "(string \<Rightarrow> response) \<Rightarrow> string \<Rightarrow> string \<Rightarrow> int \<Rightarrow> int \<Rightarrow> string \<Rightarrow> state
     \<Rightarrow> (exn + entry list) \<times> state" where
  \<comment> \<open>\<open>get\<close> is \<open>requests.get\<close>. \<open>Inl\<close> is an exception that leaves the function. In the handler
      of line 106 \<open>result_links\<close> is still empty, since only \<open>requests.get\<close> raises a
      \<open>RequestException\<close>.\<close>
  "fetch_and_extract get url base_url depth max_depth source_url s =
     (case gate url depth max_depth s of
        (False, s0) \<Rightarrow> (Inr [], s0)
      | (True, s0) \<Rightarrow>
          (let s1 = s0\<lparr>requests := requests s0 @ [url]\<rparr>
           in case get url of
                Request_exception e \<Rightarrow> (Inr [], record_error url e source_url s1)
              | Raises x \<Rightarrow> (Inl x, s1)
              | Response status page \<Rightarrow>
                  (let s2 = count_status status s1
                   in if status \<ge> 400 then (Inr [], record_broken url status source_url s2)
                      else case page of
                             Unparsable x \<Rightarrow> (Inl x, s2)
                           | Links hrefs \<Rightarrow> extract_links url base_url depth hrefs [] s2)))"

section \<open>The crawl\<close>

text \<open>
  Worker threads interleave. Each block under \<open>lock\<close> is one step; a task changes the shared
  state nowhere else, so the code between two of its blocks is run together with one of
  them. A task is its frontier entry and the point it has reached.
\<close>

datatype pc =
    Waiting
  | Fetching
  | Responded int page
  | Excepted string
  | Counted int page
  | Extracting "string list" "entry list"
  | Finished "exn + entry list"

datatype phase = Submitting | Collecting | Done | Aborted exn

text \<open>
  \<open>futures\<close> holds the futures of the current wave that \<open>as_completed\<close> has not yielded yet.
  \<open>dispatched\<close> is not a variable of the program: it lists the entries popped from the
  queue so far.
\<close>

record crawl =
  shared :: state
  queue :: "entry list"
  futures :: "(entry \<times> pc) multiset"
  phase :: phase
  dispatched :: "entry list"

definition running :: "entry \<times> pc \<Rightarrow> bool" where
  \<comment> \<open>the task occupies a worker thread\<close>
  "running t = (snd t \<noteq> Waiting \<and> (\<forall>r. snd t \<noteq> Finished r))"

definition init :: "string \<Rightarrow> int \<Rightarrow> bool \<Rightarrow> crawl" where
  \<comment> \<open>lines 115-119, after \<open>main\<close> has opened the realtime file, if any, and written its header;
      \<open>ThreadPoolExecutor\<close> refuses \<open>max_workers <= 0\<close> with a \<open>ValueError\<close>\<close>
  "init base_url max_workers realtime =
     \<lparr>shared = \<lparr>visited = {}, discovered = {base_url}, broken = [], stats = {#},
         realtime_export_file =
           (if realtime then Some [[Str_cell ''Error'', Str_cell ''URL'', Str_cell ''Source'']] else None),
         requests = []\<rparr>,
      queue = [(base_url, 0, ''root'')],
      futures = {#},
      phase = (if max_workers \<le> 0 then Aborted ValueError else Submitting),
      dispatched = []\<rparr>"

inductive step :: "(string \<Rightarrow> response) \<Rightarrow> string \<Rightarrow> int \<Rightarrow> int \<Rightarrow> crawl \<Rightarrow> crawl \<Rightarrow> bool"
  for get :: "string \<Rightarrow> response" and base_url :: string and max_depth :: int and max_workers :: int
  where
    submit: \<comment> \<open>lines 122-125\<close>
      "phase c = Submitting \<Longrightarrow> queue c = e # q \<Longrightarrow>
       step get base_url max_depth max_workers c
         (c\<lparr>queue := q, futures := add_mset (e, Waiting) (futures c),
            dispatched := dispatched c @ [e]\<rparr>)"
  | submitted: \<comment> \<open>the inner loop ends\<close>
      "phase c = Submitting \<Longrightarrow> queue c = [] \<Longrightarrow>
       step get base_url max_depth max_workers c (c\<lparr>phase := Collecting\<rparr>)"
  | enter: \<comment> \<open>lines 77-80, once a worker is free\<close>
      "futures c = add_mset ((url, depth, source_url), Waiting) F \<Longrightarrow>
       int (size (filter_mset running F)) < max_workers \<Longrightarrow>
       gate url depth max_depth (shared c) = (ok, s') \<Longrightarrow>
       step get base_url max_depth max_workers c
         (c\<lparr>shared := s',
            futures := add_mset ((url, depth, source_url), if ok then Fetching else Finished (Inr [])) F\<rparr>)"
  | fetch: \<comment> \<open>line 83\<close>
      "futures c = add_mset ((url, depth, source_url), Fetching) F \<Longrightarrow>
       step get base_url max_depth max_workers c
         (c\<lparr>shared := (shared c)\<lparr>requests := requests (shared c) @ [url]\<rparr>,
            futures := add_mset ((url, depth, source_url),
                         case get url of Response status page \<Rightarrow> Responded status page
                                       | Request_exception e \<Rightarrow> Excepted e
                                       | Raises x \<Rightarrow> Finished (Inl x)) F\<rparr>)"
  | count: \<comment> \<open>lines 84-87\<close>
      "futures c = add_mset (e, Responded status page) F \<Longrightarrow>
       step get base_url max_depth max_workers c
         (c\<lparr>shared := count_status status (shared c),
            futures := add_mset (e, Counted status page) F\<rparr>)"
  | broken_page: \<comment> \<open>lines 89-93\<close>
      "futures c = add_mset ((url, depth, source_url), Counted status page) F \<Longrightarrow> status \<ge> 400 \<Longrightarrow>
       step get base_url max_depth max_workers c
         (c\<lparr>shared := record_broken url status source_url (shared c),
            futures := add_mset ((url, depth, source_url), Finished (Inr [])) F\<rparr>)"
  | parse: \<comment> \<open>lines 95-96\<close>
      "futures c = add_mset (e, Counted status page) F \<Longrightarrow> \<not> status \<ge> 400 \<Longrightarrow>
       step get base_url max_depth max_workers c
         (c\<lparr>futures := add_mset (e, case page of Links hrefs \<Rightarrow> Extracting hrefs []
                                               | Unparsable x \<Rightarrow> Finished (Inl x)) F\<rparr>)"
  | link: \<comment> \<open>lines 97-104, for one tag\<close>
      "futures c = add_mset ((url, depth, source_url), Extracting (tag_href # tags) result_links) F \<Longrightarrow>
       discover url base_url depth tag_href result_links (shared c) = (r, s') \<Longrightarrow>
       step get base_url max_depth max_workers c
         (c\<lparr>shared := s',
            futures := add_mset ((url, depth, source_url),
                         case r of Inl x \<Rightarrow> Finished (Inl x)
                                 | Inr result_links' \<Rightarrow> Extracting tags result_links') F\<rparr>)"
  | return: \<comment> \<open>line 112, from the loop\<close>
      "futures c = add_mset (e, Extracting [] result_links) F \<Longrightarrow>
       step get base_url max_depth max_workers c
         (c\<lparr>futures := add_mset (e, Finished (Inr result_links)) F\<rparr>)"
  | handle: \<comment> \<open>lines 106-112\<close>
      "futures c = add_mset ((url, depth, source_url), Excepted msg) F \<Longrightarrow>
       step get base_url max_depth max_workers c
         (c\<lparr>shared := record_error url msg source_url (shared c),
            futures := add_mset ((url, depth, source_url), Finished (Inr [])) F\<rparr>)"
  | collect: \<comment> \<open>lines 127-130\<close>
      "phase c = Collecting \<Longrightarrow> futures c = add_mset (e, Finished (Inr result)) F \<Longrightarrow>
       step get base_url max_depth max_workers c
         (c\<lparr>queue := queue c @ result, futures := F\<rparr>)"
  | reraise: \<comment> \<open>line 128: \<open>future.result()\<close> raises what the task raised; the executor, on
        leaving its \<open>with\<close> block, still lets the submitted tasks run\<close>
      "phase c = Collecting \<Longrightarrow> futures c = add_mset (e, Finished (Inl x)) F \<Longrightarrow>
       step get base_url max_depth max_workers c (c\<lparr>phase := Aborted x\<rparr>)"
  | wave: \<comment> \<open>line 120, after a wave\<close>
      "phase c = Collecting \<Longrightarrow> futures c = {#} \<Longrightarrow>
       step get base_url max_depth max_workers c
         (c\<lparr>phase := (if queue c = [] then Done else Submitting)\<rparr>)"

inductive reachable :: "(string \<Rightarrow> response) \<Rightarrow> string \<Rightarrow> int \<Rightarrow> int \<Rightarrow> bool \<Rightarrow> crawl \<Rightarrow> bool"
  for get :: "string \<Rightarrow> response" and base_url :: string and max_depth :: int and max_workers :: int
    and realtime :: bool
  where
    at_start: "reachable get base_url max_depth max_workers realtime (init base_url max_workers realtime)"
  | after_step: "reachable get base_url max_depth max_workers realtime c \<Longrightarrow>
           step get base_url max_depth max_workers c c' \<Longrightarrow>
           reachable get base_url max_depth max_workers realtime c'"

section \<open>The final export\<close>

definition writerow :: "row \<Rightarrow> row list \<Rightarrow> row list" where
  "writerow r file = file @ [r]"

fun export_rows :: "broken_link list \<Rightarrow> row list \<Rightarrow> row list" where
  \<comment> \<open>lines 154-158\<close>
  "export_rows [] file = file"
| "export_rows ((url, err, source) # rest) file =
     (case err of
        Status n \<Rightarrow>
          if n = 400 \<or> n = 404 \<or> n = 500
          then export_rows rest (writerow [Int_cell n, Str_cell url, Str_cell source] file)
          else export_rows rest file
      | Message m \<Rightarrow>
          export_rows rest (writerow [Str_cell ''ERROR'', Str_cell url, Str_cell source] file))"

definition export_errors_to_csv ::
  "string \<Rightarrow> state \<Rightarrow> (string \<rightharpoonup> row list) \<Rightarrow> (string \<rightharpoonup> row list)" where
  \<comment> \<open>lines 149-158; the last argument is the file system, and mode \<open>"w"\<close> truncates the file\<close>
  "export_errors_to_csv filename s files =
     files(filename \<mapsto>
       export_rows (broken s) (writerow [Str_cell ''Error'', Str_cell ''URL'', Str_cell ''Source''] []))"

section \<open>Notions used to state and prove the claims\<close>

subsection \<open>The final export, as a filter\<close>

text \<open>
  Which records the final export keeps, and the row it writes for one.
\<close>

definition exported :: "broken_link \<Rightarrow> bool" where
  "exported b = (case fst (snd b) of Status n \<Rightarrow> n \<in> {400, 404, 500} | Message m \<Rightarrow> True)"

definition csv_row :: "broken_link \<Rightarrow> row" where
  "csv_row b =
     (case fst (snd b) of
        Status n \<Rightarrow> [Int_cell n, Str_cell (fst b), Str_cell (snd (snd b))]
      | Message m \<Rightarrow> [Str_cell ''ERROR'', Str_cell (fst b), Str_cell (snd (snd b))])"

subsection \<open>Invariants of the crawl\<close>

text \<open>
  A task awaits its fetch between the gate and \<open>requests.get\<close>, and is uncounted between the
  gate and its increment of \<open>stats\<close>. A request is uncaught when it raises an exception that
  the handler of line 106 lets through: its task ends without an increment. \<open>pending\<close> holds the entries a task has created and the
  scheduler has not yet collected; \<open>frontier\<close> holds every entry created so far. A crawl is
  aborting once a task has raised or the scheduler has re-raised.
\<close>

fun awaiting_fetch :: "pc \<Rightarrow> bool" where
  "awaiting_fetch Fetching = True"
| "awaiting_fetch _ = False"

fun uncounted :: "pc \<Rightarrow> bool" where
  "uncounted Fetching = True"
| "uncounted (Responded status page) = True"
| "uncounted (Excepted e) = True"
| "uncounted _ = False"

definition fetch_inv :: "crawl \<Rightarrow> bool" where
  "fetch_inv c =
     (finite (visited (shared c))
      \<and> image_mset (\<lambda>t. fst (fst t)) (filter_mset (\<lambda>t. awaiting_fetch (snd t)) (futures c))
          + mset (requests (shared c)) = mset_set (visited (shared c)))"

fun uncaught :: "response \<Rightarrow> bool" where
  "uncaught (Raises x) = True"
| "uncaught _ = False"

definition count_inv :: "(string \<Rightarrow> response) \<Rightarrow> crawl \<Rightarrow> bool" where
  "count_inv get c =
     (size (stats (shared c)) + size (filter_mset (\<lambda>t. uncounted (snd t)) (futures c))
        + length (filter (\<lambda>u. uncaught (get u)) (requests (shared c)))
        = card (visited (shared c)))"

fun pending :: "pc \<Rightarrow> entry multiset" where
  "pending (Extracting tags result_links) = mset result_links"
| "pending (Finished (Inr result)) = mset result"
| "pending _ = {#}"

fun raised :: "pc \<Rightarrow> bool" where
  "raised (Finished (Inl x)) = True"
| "raised _ = False"

definition aborting :: "crawl \<Rightarrow> bool" where
  "aborting c = ((\<exists>x. phase c = Aborted x) \<or> filter_mset (\<lambda>t. raised (snd t)) (futures c) \<noteq> {#})"

definition raise_inv :: "(string \<Rightarrow> response) \<Rightarrow> crawl \<Rightarrow> bool" where
  \<comment> \<open>a task whose request was uncaught stays among the futures, with its exception\<close>
  "raise_inv get c =
     (length (filter (\<lambda>u. uncaught (get u)) (requests (shared c)))
        \<le> size (filter_mset (\<lambda>t. raised (snd t)) (futures c)))"



definition frontier :: "crawl \<Rightarrow> entry multiset" where
  "frontier c = mset (queue c) + (\<Sum>t\<in>#futures c. pending (snd t)) + mset (dispatched c)"

definition frontier_inv :: "int \<Rightarrow> crawl \<Rightarrow> bool" where
  "frontier_inv max_depth c =
     (finite (discovered (shared c))
      \<and> image_mset fst (frontier c) = mset_set (discovered (shared c))
      \<and> image_mset fst (futures c) \<subseteq># mset (dispatched c)
      \<and> visited (shared c) =
          {u. \<exists>d src. (u, d, src) \<in> set (dispatched c) \<and> d \<le> max_depth
                \<and> ((u, d, src), Waiting) \<notin># futures c})"

definition depth_inv :: "string \<Rightarrow> crawl \<Rightarrow> bool" where
  "depth_inv base_url c =
     ((base_url, 0, ''root'') \<in> set (queue c) \<union> set (dispatched c)
      \<and> (\<forall>e. e \<in># frontier c + image_mset fst (futures c) \<longrightarrow>
             e = (base_url, 0, ''root'') \<or> 1 \<le> fst (snd e)))"

subsection \<open>Normalization as the specification words it\<close>

text \<open>
  The normalizer with the last step read as ``strip exactly one trailing slash if present''.
\<close>

definition strip_one_slash :: "string \<Rightarrow> string" where
  "strip_one_slash s = (if s \<noteq> [] \<and> last s = CHR ''/'' then butlast s else s)"

definition normalize_url_spec :: "string \<Rightarrow> string \<Rightarrow> exn + string" where
  "normalize_url_spec base link =
     (case urljoin base link of
        Inl e \<Rightarrow> Inl e
      | Inr joined \<Rightarrow>
     (case urldefrag joined of
        Inl e \<Rightarrow> Inl e
      | Inr (clean, _) \<Rightarrow> Inr (strip_one_slash (strip isspace clean))))"

subsection \<open>URLs of the form scheme://authority, followed by a path, query or fragment\<close>

definition scheme_ok :: "string \<Rightarrow> bool" where
  "scheme_ok s = (s \<noteq> [] \<and> ascii_alpha (hd s) \<and> list_all scheme_char s)"

definition authority_char :: "char \<Rightarrow> bool" where
  "authority_char c =
     (c \<noteq> CHR ''/'' \<and> c \<noteq> CHR ''?'' \<and> c \<noteq> CHR ''#'' \<and> c \<noteq> CHR ''['' \<and> c \<noteq> CHR '']''
      \<and> \<not> unsafe_url_byte c)"

definition rest_ok :: "string \<Rightarrow> bool" where
  "rest_ok p = (p = [] \<or> hd p = CHR ''/'' \<or> hd p = CHR ''?'' \<or> hd p = CHR ''#'')"

subsection \<open>A sample crawl\<close>

text \<open>
  A site whose start page \<open>http://h\<close> answers 200 and links to \<open>/a\<close>; every other page
  answers 404. \<open>example_done\<close> is the state in which a crawl of depth 0 with 10 workers ends.
\<close>

definition example_get :: "string \<Rightarrow> response" where
  "example_get u = (if u = ''http://h'' then Response 200 (Links [''/a'']) else Response 404 (Links []))"

definition example_state ::
  "string set \<Rightarrow> string set \<Rightarrow> stat_key multiset \<Rightarrow> string list \<Rightarrow> entry list
     \<Rightarrow> (entry \<times> pc) multiset \<Rightarrow> phase \<Rightarrow> entry list \<Rightarrow> crawl" where
  "example_state v d st rq q f p ds =
     \<lparr>shared = \<lparr>visited = v, discovered = d, broken = [], stats = st,
         realtime_export_file = None, requests = rq\<rparr>,
      queue = q, futures = f, phase = p, dispatched = ds\<rparr>"

definition example_done :: crawl where
  "example_done =
     example_state {''http://h''} {''http://h/a'', ''http://h''} {#Code 200#} [''http://h'']
       [] {#} Done [(''http://h'', 0, ''root''), (''http://h/a'', 1, ''http://h'')]"



definition failing_get :: "string \<Rightarrow> response" where
  "failing_get u = Raises (Other_exception ''LocationParseError'')"

definition example_failed :: crawl where
  "example_failed =
     example_state {''http://h''} {''http://h''} {#} [''http://h''] []
       {#((''http://h'', 0, ''root''), Finished (Inl (Other_exception ''LocationParseError'')))#}
       (Aborted (Other_exception ''LocationParseError'')) [(''http://h'', 0, ''root'')]"



section \<open>Lemmas\<close>

subsection \<open>The export loop\<close>

lemma export_rows_filter:
  "export_rows bs acc = acc @ map csv_row (filter exported bs)"
  by (induction bs acc rule: export_rows.induct)
     (auto simp: exported_def csv_row_def writerow_def split: error.splits)

subsection \<open>What the blocks of a task leave unchanged\<close>

lemma realtime_frame [simp]:
  "visited (export_row_realtime c t u s) = visited s"
  "discovered (export_row_realtime c t u s) = discovered s"
  "broken (export_row_realtime c t u s) = broken s"
  "stats (export_row_realtime c t u s) = stats s"
  "requests (export_row_realtime c t u s) = requests s"
  by (simp_all add: export_row_realtime_def split: option.splits)

lemma discover_frame:
  assumes "discover url base_url depth h acc s = (r, s')"
  shows "visited s' = visited s" "requests s' = requests s" "stats s' = stats s"
    "broken s' = broken s" "realtime_export_file s' = realtime_export_file s"
  using assms
  by (auto simp: discover_def split: sum.splits if_splits)

subsection \<open>Requests and counts\<close>

lemma fetch_inv_step:
  assumes "step get base_url max_depth max_workers c c'" and "fetch_inv c"
  shows "fetch_inv c'"
  using assms
proof (cases rule: step.cases)
  case (enter url depth source_url F ok s')
  then show ?thesis using assms(2)
    by (auto simp: fetch_inv_def gate_def split: if_splits)
next
  case (fetch url depth source_url F)
  then show ?thesis using assms(2)
    by (auto simp: fetch_inv_def split: response.splits)
next
  case (link url depth source_url tag_href tags result_links F r s')
  then show ?thesis using assms(2) discover_frame[OF link(3)]
    by (auto simp: fetch_inv_def split: sum.splits)
qed (auto simp: fetch_inv_def count_status_def record_broken_def record_error_def split: page.splits)

lemma count_inv_step:
  assumes "step get base_url max_depth max_workers c c'" and "count_inv get c" and "fetch_inv c"
  shows "count_inv get c'"
  using assms(1)
proof (cases rule: step.cases)
  case (enter url depth source_url F ok s')
  then show ?thesis using assms(2,3)
    by (auto simp: count_inv_def fetch_inv_def gate_def split: if_splits)
next
  case (fetch url depth source_url F)
  then show ?thesis using assms(2)
    by (auto simp: count_inv_def split: response.splits)
next
  case (link url depth source_url tag_href tags result_links F r s')
  then show ?thesis using assms(2) discover_frame[OF link(3)]
    by (auto simp: count_inv_def split: sum.splits)
qed (use assms(2) in \<open>auto simp: count_inv_def count_status_def record_broken_def record_error_def
       split: page.splits\<close>)

lemma reachable_fetch_inv:
  "reachable get base_url max_depth max_workers realtime c \<Longrightarrow> fetch_inv c"
proof (induction rule: reachable.induct)
  case at_start
  show ?case by (simp add: fetch_inv_def init_def)
next
  case (after_step c c')
  then show ?case using fetch_inv_step by blast
qed

lemma reachable_count_inv:
  "reachable get base_url max_depth max_workers realtime c \<Longrightarrow> count_inv get c"
proof (induction rule: reachable.induct)
  case at_start
  show ?case by (simp add: count_inv_def init_def)
next
  case (after_step c c')
  then show ?case using count_inv_step reachable_fetch_inv by blast
qed

lemma step_visited_mono:
  "step get base_url max_depth max_workers c c' \<Longrightarrow> visited (shared c) \<subseteq> visited (shared c')"
  by (erule step.cases)
     (auto simp: gate_def count_status_def record_broken_def record_error_def discover_def
           split: if_splits sum.splits)

lemma requests_visited:
  assumes "reachable get base_url max_depth max_workers realtime c"
  shows "set (requests (shared c)) \<subseteq> visited (shared c)"
proof -
  from reachable_fetch_inv[OF assms]
  have fin: "finite (visited (shared c))"
    and "mset (requests (shared c)) \<subseteq># mset_set (visited (shared c))"
    unfolding fetch_inv_def by (metis mset_subset_eq_add_right)+
  then show ?thesis using set_mset_mono by fastforce
qed

subsection \<open>Exceptions\<close>

lemma raise_inv_step:
  assumes "step get base_url max_depth max_workers c c'" and "raise_inv get c"
  shows "raise_inv get c'"
  using assms
proof (cases rule: step.cases)
  case (link url depth source_url tag_href tags result_links F r s')
  then show ?thesis using assms(2) discover_frame[OF link(3)]
    by (auto simp: raise_inv_def split: sum.splits)
qed (auto simp: raise_inv_def gate_def count_status_def record_broken_def record_error_def
       split: if_splits response.splits page.splits)

lemma reachable_raise_inv:
  "reachable get base_url max_depth max_workers realtime c \<Longrightarrow> raise_inv get c"
proof (induction rule: reachable.induct)
  case at_start
  show ?case by (simp add: raise_inv_def init_def)
next
  case (after_step c c')
  then show ?case using raise_inv_step by blast
qed





subsection \<open>One entry for each discovered URL\<close>

lemma mset_le_mset_set_distinct:
  assumes "mset xs \<subseteq># mset_set A"
  shows "distinct xs"
proof -
  have "count (mset xs) x \<le> 1" for x
  proof -
    have "count (mset_set A) x \<le> 1"
      by (cases "finite A"; cases "x \<in> A") simp_all
    with mset_subset_eq_count[OF assms, of x] show ?thesis by linarith
  qed
  then show ?thesis
    unfolding distinct_count_atmost_1 by (metis count_mset_0_iff le_Suc_eq le_zero_eq One_nat_def)
qed

lemma distinct_map_fst_unique:
  "distinct (map fst xs) \<Longrightarrow> (u, a) \<in> set xs \<Longrightarrow> (u, b) \<in> set xs \<Longrightarrow> a = b"
  by (meson eq_key_imp_eq_value)

lemma frontier_facts:
  assumes inv: "frontier_inv max_depth c" and fut: "futures c = add_mset (e, p) F"
  shows "e \<in> set (dispatched c)"
    and "(e, q) \<notin># F"
    and "distinct (map fst (dispatched c))"
    and "(fst e, d, src) \<in> set (dispatched c) \<Longrightarrow> (fst e, d, src) = e"
proof -
  have sub: "add_mset e (image_mset fst F) \<subseteq># mset (dispatched c)"
    using inv fut by (simp add: frontier_inv_def)
  have "image_mset fst (mset (dispatched c)) \<subseteq># image_mset fst (frontier c)"
    by (simp add: frontier_def)
  then have "mset (map fst (dispatched c)) \<subseteq># mset_set (discovered (shared c))"
    using inv by (simp add: frontier_inv_def)
  then show dm: "distinct (map fst (dispatched c))"
    by (rule mset_le_mset_set_distinct)
  then have dd: "distinct (dispatched c)"
    by (simp add: distinct_map)
  show mem: "e \<in> set (dispatched c)"
    using mset_subset_eqD[OF sub, of e] by simp
  have "count (mset (dispatched c)) e \<le> 1"
    using dd unfolding distinct_count_atmost_1 by (cases e) simp
  moreover have "count (add_mset e (image_mset fst F)) e \<le> count (mset (dispatched c)) e"
    using sub by (rule mset_subset_eq_count)
  ultimately have "count (image_mset fst F) e = 0" by simp
  then have "e \<notin># image_mset fst F" by (simp add: count_eq_zero_iff)
  then show "(e, q) \<notin># F" by force
  show "(fst e, d, src) = e" if "(fst e, d, src) \<in> set (dispatched c)"
    using that mem dm by (cases e) (auto dest: distinct_map_fst_unique)
qed

lemma aborting_stable:
  assumes "step get base_url max_depth max_workers c c'" and "aborting c"
  shows "aborting c'"
  using assms
  by (cases rule: step.cases)
     (auto simp: aborting_def split: sum.splits response.splits page.splits)

lemma discover_result:
  assumes "discover url base_url depth h acc s = (Inr acc', s')"
  shows "(acc' = acc \<and> discovered s' = discovered s)
         \<or> (\<exists>href. href \<notin> discovered s \<and> acc' = acc @ [(href, depth + 1, url)]
               \<and> discovered s' = insert href (discovered s))"
  using assms
  by (auto simp: discover_def split: sum.splits if_splits)

lemma visited_after_gate:
  fixes P :: "entry \<Rightarrow> bool"
  assumes "(url, depth, source) \<in> D" and "P (url, depth, source)"
    and "\<And>d src. (url, d, src) \<in> D \<Longrightarrow> d = depth \<and> src = source"
  shows "{u. \<exists>d src. (u, d, src) \<in> D \<and> d \<le> md \<and> P (u, d, src)}
       = (if depth \<le> md then {url} else {})
         \<union> {u. \<exists>d src. (u, d, src) \<in> D \<and> d \<le> md \<and> (u, d, src) \<noteq> (url, depth, source)
                 \<and> P (u, d, src)}"
proof (cases "depth \<le> md")
  case True
  then show ?thesis using assms(1,2) by auto
next
  case False
  have "(u, d, src) \<noteq> (url, depth, source)" if "(u, d, src) \<in> D" and "d \<le> md" for u d src
    using that False by auto
  then show ?thesis using False by auto
qed

lemma frontier_inv_step:
  assumes st: "step get base_url max_depth max_workers c c'"
    and inv: "frontier_inv max_depth c" and ok: "\<not> aborting c'"
  shows "frontier_inv max_depth c'"
  using st
proof (cases rule: step.cases)
  case (submit e q)
  have "image_mset fst (mset (dispatched c)) + {#fst e#} \<subseteq># image_mset fst (frontier c)"
    using submit by (simp add: frontier_def)
  then have "mset (map fst (dispatched c @ [e])) \<subseteq># mset_set (discovered (shared c))"
    using inv by (simp add: frontier_inv_def)
  then have "distinct (map fst (dispatched c @ [e]))"
    by (rule mset_le_mset_set_distinct)
  then have new: "e \<notin> set (dispatched c)" by auto
  show ?thesis
    using inv submit new
    by (auto simp: frontier_inv_def frontier_def)
next
  case (submitted)
  then show ?thesis using inv by (simp add: frontier_inv_def frontier_def)
next
  case (enter url depth source_url F ok' s')
  note f = frontier_facts[OF inv enter(2)]
  have fr: "frontier c' = frontier c"
    using enter(1,2) by (cases ok') (simp_all add: frontier_def)
  have fu: "image_mset fst (futures c') = image_mset fst (futures c)"
    using enter(1,2) by simp
  have di: "dispatched c' = dispatched c" "discovered (shared c') = discovered (shared c)"
    using enter(1,4) by (auto simp: gate_def split: if_splits)
  have old: "visited (shared c) =
      {u. \<exists>d src. (u, d, src) \<in> set (dispatched c) \<and> d \<le> max_depth
            \<and> (u, d, src) \<noteq> (url, depth, source_url) \<and> ((u, d, src), Waiting) \<notin># F}"
    using inv enter(2) by (auto simp: frontier_inv_def)
  have new: "{u. \<exists>d src. (u, d, src) \<in> set (dispatched c') \<and> d \<le> max_depth
            \<and> ((u, d, src), Waiting) \<notin># futures c'}
      = {u. \<exists>d src. (u, d, src) \<in> set (dispatched c) \<and> d \<le> max_depth
            \<and> ((u, d, src), Waiting) \<notin># F}"
    using enter(1) by (cases ok') auto
  have vis: "visited (shared c') =
      (if url \<in> visited (shared c) \<or> depth > max_depth then visited (shared c)
       else insert url (visited (shared c)))"
    using enter(1,4) by (auto simp: gate_def split: if_splits)
  have "visited (shared c') =
      {u. \<exists>d src. (u, d, src) \<in> set (dispatched c) \<and> d \<le> max_depth
            \<and> ((u, d, src), Waiting) \<notin># F}"
  proof -
    have uniq: "d = depth \<and> src = source_url" if "(url, d, src) \<in> set (dispatched c)" for d src
      using f(4)[of d src] that by simp
    note vg = visited_after_gate[of url depth source_url "set (dispatched c)"
        "\<lambda>e. (e, Waiting) \<notin># F" max_depth, OF f(1) f(2)[of Waiting] uniq]
    show ?thesis
    proof (cases "url \<in> visited (shared c) \<or> depth > max_depth")
      case False
      then have v: "visited (shared c') = insert url (visited (shared c))" and d: "depth \<le> max_depth"
        using vis by auto
      show ?thesis unfolding v old using d vg by auto
    next
      case True
      then have v: "visited (shared c') = visited (shared c)"
        using vis by auto
      from True show ?thesis
      proof
        assume "url \<in> visited (shared c)"
        then have "insert url (visited (shared c)) = visited (shared c)" by auto
        then show ?thesis unfolding v using old vg by auto
      next
        assume "depth > max_depth"
        then show ?thesis unfolding v old using vg by auto
      qed
    qed
  qed
  then have "visited (shared c') =
      {u. \<exists>d src. (u, d, src) \<in> set (dispatched c') \<and> d \<le> max_depth
            \<and> ((u, d, src), Waiting) \<notin># futures c'}"
    unfolding new .
  moreover have "finite (discovered (shared c'))"
    and "image_mset fst (frontier c') = mset_set (discovered (shared c'))"
    and "image_mset fst (futures c') \<subseteq># mset (dispatched c')"
    using inv unfolding frontier_inv_def fr fu di by simp_all
  ultimately show ?thesis
    unfolding frontier_inv_def by blast
next
  case (fetch url depth source_url F)
  then show ?thesis using inv
    by (auto simp: frontier_inv_def frontier_def split: response.splits)
next
  case (count e status page F)
  then show ?thesis using inv
    by (auto simp: frontier_inv_def frontier_def count_status_def)
next
  case (broken_page url depth source_url status page F)
  then show ?thesis using inv
    by (auto simp: frontier_inv_def frontier_def record_broken_def export_row_realtime_def split: option.splits)
next
  case (parse e status page F)
  then show ?thesis using inv
    by (cases page) (auto simp: frontier_inv_def frontier_def)
next
  case (link url depth source_url tag_href tags result_links F r s')
  show ?thesis
  proof (cases r)
    case (Inl x)
    then have "aborting c'" using link by (simp add: aborting_def)
    then show ?thesis using ok by simp
  next
    case (Inr acc')
    note fr = discover_frame[OF link(3)]
    from discover_result[OF link(3)[unfolded Inr]] show ?thesis
    proof (elim disjE exE conjE)
      assume "acc' = result_links" "discovered s' = discovered (shared c)"
      then show ?thesis using inv link(1,2) Inr fr
        by (auto simp: frontier_inv_def frontier_def)
    next
      fix href
      assume "href \<notin> discovered (shared c)" "acc' = result_links @ [(href, depth + 1, url)]"
        "discovered s' = insert href (discovered (shared c))"
      then show ?thesis using inv link(1,2) Inr fr
        by (auto simp: frontier_inv_def frontier_def)
    qed
  qed
next
  case (return e result_links F)
  then show ?thesis using inv
    by (auto simp: frontier_inv_def frontier_def)
next
  case (handle url depth source_url msg F)
  then show ?thesis using inv
    by (auto simp: frontier_inv_def frontier_def record_error_def export_row_realtime_def split: option.splits)
next
  case (collect e result F)
  then show ?thesis using inv
    by (auto simp: frontier_inv_def frontier_def ac_simps dest: mset_subset_eq_insertD)
next
  case (reraise e x F)
  then have "aborting c'" by (simp add: aborting_def)
  then show ?thesis using ok by simp
next
  case wave
  then show ?thesis using inv by (simp add: frontier_inv_def frontier_def)
qed

lemma init_frontier_inv:
  "\<not> aborting (init base_url max_workers realtime) \<Longrightarrow>
   frontier_inv max_depth (init base_url max_workers realtime)"
  by (simp add: frontier_inv_def frontier_def init_def aborting_def)

lemma reachable_frontier_inv:
  "reachable get base_url max_depth max_workers realtime c \<Longrightarrow> \<not> aborting c \<Longrightarrow>
   frontier_inv max_depth c"
proof (induction rule: reachable.induct)
  case at_start
  then show ?case by (rule init_frontier_inv)
next
  case (after_step c c')
  from after_step.hyps(2) after_step.prems have "\<not> aborting c"
    using aborting_stable by blast
  then have "frontier_inv max_depth c" by (rule after_step.IH)
  with after_step.hyps(2) show ?case
    using after_step.prems by (rule frontier_inv_step)
qed

lemma reachable_done:
  "reachable get base_url max_depth max_workers realtime c \<Longrightarrow> phase c = Done \<Longrightarrow>
   futures c = {#} \<and> queue c = []"
proof (induction rule: reachable.induct)
  case at_start
  then show ?case by (simp add: init_def split: if_splits)
next
  case (after_step c c')
  from after_step.hyps(2) show ?case
    using after_step.IH after_step.prems
    by (cases rule: step.cases) (auto split: if_splits)
qed

subsection \<open>Depths of entries\<close>

lemma discover_depth:
  assumes "discover url base_url depth h acc s = (Inr acc', s')" and "0 \<le> depth"
    and "e \<in> set acc'"
  shows "e \<in> set acc \<or> 1 \<le> fst (snd e)"
  using assms
  by (auto simp: discover_def split: sum.splits if_splits)

lemma depth_inv_step:
  assumes st: "step get base_url max_depth max_workers c c'" and inv: "depth_inv base_url c"
  shows "depth_inv base_url c'"
  using st
proof (cases rule: step.cases)
  case (link url depth source_url tag_href tags result_links F r s')
  have d: "0 \<le> depth"
    using inv link(2) unfolding depth_inv_def by fastforce
  show ?thesis
  proof (cases r)
    case (Inl x)
    then show ?thesis using inv link(1,2)
      by (auto simp: depth_inv_def frontier_def)
  next
    case (Inr acc')
    have acc: "e \<in> set result_links \<or> 1 \<le> fst (snd e)" if "e \<in> set acc'" for e
      using discover_depth[OF link(3)[unfolded Inr] d that] .
    have old: "e \<in># frontier c + image_mset fst (futures c) \<or> 1 \<le> fst (snd e)"
      if "e \<in># frontier c' + image_mset fst (futures c')" for e
      using that acc[of e] link(1,2) Inr
      by (auto simp: frontier_def)
    have same: "queue c' = queue c" "dispatched c' = dispatched c"
      using link(1) by simp_all
    show ?thesis
      unfolding depth_inv_def same using inv old unfolding depth_inv_def by blast
  qed
qed (use inv in \<open>auto simp: depth_inv_def frontier_def split: response.splits page.splits\<close>)

lemma reachable_depth_inv:
  "reachable get base_url max_depth max_workers realtime c \<Longrightarrow> depth_inv base_url c"
proof (induction rule: reachable.induct)
  case at_start
  show ?case by (simp add: depth_inv_def init_def frontier_def)
next
  case (after_step c c')
  then show ?case using depth_inv_step by blast
qed

subsection \<open>The sample crawl is a crawl\<close>

lemma example_normalize: "normalize_url ''http://h'' ''/a'' = Inr ''http://h/a''"
  by code_simp

lemma example_internal: "is_internal ''http://h'' ''http://h/a'' = Inr True"
  by code_simp

lemma example_discover:
  "discover ''http://h'' ''http://h'' 0 ''/a'' [] (shared (example_state {''http://h''} {''http://h''} st rq q f p ds))
   = (Inr [(''http://h/a'', 1, ''http://h'')],
      shared (example_state {''http://h''} {''http://h/a'', ''http://h''} st rq q f p ds))"
  by (simp add: discover_def example_normalize example_internal startswith_def example_state_def)

lemma example_reachable: "reachable example_get ''http://h'' 0 10 False example_done"
proof -
  let ?B = "''http://h''" and ?A = "''http://h/a''"
  let ?seed = "(?B, 0::int, ''root'')" and ?ea = "(?A, 1::int, ?B)"
  let ?R = "reachable example_get ?B 0 10 False"
  let ?S = "step example_get ?B 0 10"
  let ?c0 = "example_state {} {?B} {#} [] [?seed] {#} Submitting []"
  let ?c1 = "example_state {} {?B} {#} [] [] {#(?seed, Waiting)#} Submitting [?seed]"
  let ?c2 = "example_state {} {?B} {#} [] [] {#(?seed, Waiting)#} Collecting [?seed]"
  let ?c3 = "example_state {?B} {?B} {#} [] [] {#(?seed, Fetching)#} Collecting [?seed]"
  let ?c4 = "example_state {?B} {?B} {#} [?B] [] {#(?seed, Responded 200 (Links [''/a'']))#} Collecting [?seed]"
  let ?c5 = "example_state {?B} {?B} {#Code 200#} [?B] [] {#(?seed, Counted 200 (Links [''/a'']))#} Collecting [?seed]"
  let ?c6 = "example_state {?B} {?B} {#Code 200#} [?B] [] {#(?seed, Extracting [''/a''] [])#} Collecting [?seed]"
  let ?c7 = "example_state {?B} {?A, ?B} {#Code 200#} [?B] [] {#(?seed, Extracting [] [?ea])#} Collecting [?seed]"
  let ?c8 = "example_state {?B} {?A, ?B} {#Code 200#} [?B] [] {#(?seed, Finished (Inr [?ea]))#} Collecting [?seed]"
  let ?c9 = "example_state {?B} {?A, ?B} {#Code 200#} [?B] [?ea] {#} Collecting [?seed]"
  let ?c10 = "example_state {?B} {?A, ?B} {#Code 200#} [?B] [?ea] {#} Submitting [?seed]"
  let ?c11 = "example_state {?B} {?A, ?B} {#Code 200#} [?B] [] {#(?ea, Waiting)#} Submitting [?seed, ?ea]"
  let ?c12 = "example_state {?B} {?A, ?B} {#Code 200#} [?B] [] {#(?ea, Waiting)#} Collecting [?seed, ?ea]"
  let ?c13 = "example_state {?B} {?A, ?B} {#Code 200#} [?B] [] {#(?ea, Finished (Inr []))#} Collecting [?seed, ?ea]"
  let ?c14 = "example_state {?B} {?A, ?B} {#Code 200#} [?B] [] {#} Collecting [?seed, ?ea]"
  have "init ?B 10 False = ?c0"
    by (simp add: init_def example_state_def)
  then have r0: "?R ?c0"
    using reachable.at_start[of example_get ?B 0 10 False] by simp
  have "?S ?c0 ?c1"
    using step.submit[of ?c0 ?seed "[]" example_get ?B 0 10] by (simp add: example_state_def)
  with r0 have r1: "?R ?c1" by (rule reachable.after_step)
  have "?S ?c1 ?c2"
    using step.submitted[of ?c1 example_get ?B 0 10] by (simp add: example_state_def)
  with r1 have r2: "?R ?c2" by (rule reachable.after_step)
  have "?S ?c2 ?c3"
    using step.enter[where c = ?c2 and url = ?B and depth = 0 and source_url = "''root''"
        and F = "{#}" and max_workers = 10 and max_depth = 0 and ok = True
        and s' = "shared ?c3" and get = example_get and base_url = ?B]
    by (simp add: example_state_def gate_def)
  with r2 have r3: "?R ?c3" by (rule reachable.after_step)
  have "?S ?c3 ?c4"
    using step.fetch[where c = ?c3 and url = ?B and depth = 0 and source_url = "''root''"
        and F = "{#}" and max_workers = 10 and max_depth = 0 and get = example_get and base_url = ?B]
    by (simp add: example_state_def example_get_def)
  with r3 have r4: "?R ?c4" by (rule reachable.after_step)
  have "?S ?c4 ?c5"
    using step.count[where c = ?c4 and e = ?seed and status = 200 and page = "Links [''/a'']"
        and F = "{#}" and max_workers = 10 and max_depth = 0 and get = example_get and base_url = ?B]
    by (simp add: example_state_def count_status_def)
  with r4 have r5: "?R ?c5" by (rule reachable.after_step)
  have "?S ?c5 ?c6"
    using step.parse[where c = ?c5 and e = ?seed and status = 200 and page = "Links [''/a'']"
        and F = "{#}" and max_workers = 10 and max_depth = 0 and get = example_get and base_url = ?B]
    by (simp add: example_state_def)
  with r5 have r6: "?R ?c6" by (rule reachable.after_step)
  have "?S ?c6 ?c7"
    using step.link[where c = ?c6 and url = ?B and depth = 0 and source_url = "''root''"
        and tag_href = "''/a''" and tags = "[]" and result_links = "[]" and F = "{#}"
        and r = "Inr [?ea]" and s' = "shared ?c7"
        and max_workers = 10 and max_depth = 0 and get = example_get and base_url = ?B]
      example_discover[of "{#Code 200#}" "[?B]" "[]" "{#(?seed, Extracting [''/a''] [])#}" Collecting "[?seed]"]
    by (simp add: example_state_def)
  with r6 have r7: "?R ?c7" by (rule reachable.after_step)
  have "?S ?c7 ?c8"
    using step.return[where c = ?c7 and e = ?seed and result_links = "[?ea]" and F = "{#}"
        and max_workers = 10 and max_depth = 0 and get = example_get and base_url = ?B]
    by (simp add: example_state_def)
  with r7 have r8: "?R ?c8" by (rule reachable.after_step)
  have "?S ?c8 ?c9"
    using step.collect[where c = ?c8 and e = ?seed and result = "[?ea]" and F = "{#}"
        and max_workers = 10 and max_depth = 0 and get = example_get and base_url = ?B]
    by (simp add: example_state_def)
  with r8 have r9: "?R ?c9" by (rule reachable.after_step)
  have "?S ?c9 ?c10"
    using step.wave[where c = ?c9 and max_workers = 10 and max_depth = 0 and get = example_get
        and base_url = ?B]
    by (simp add: example_state_def)
  with r9 have r10: "?R ?c10" by (rule reachable.after_step)
  have "?S ?c10 ?c11"
    using step.submit[of ?c10 ?ea "[]" example_get ?B 0 10] by (simp add: example_state_def)
  with r10 have r11: "?R ?c11" by (rule reachable.after_step)
  have "?S ?c11 ?c12"
    using step.submitted[of ?c11 example_get ?B 0 10] by (simp add: example_state_def)
  with r11 have r12: "?R ?c12" by (rule reachable.after_step)
  have "?S ?c12 ?c13"
    using step.enter[where c = ?c12 and url = ?A and depth = 1 and source_url = ?B
        and F = "{#}" and max_workers = 10 and max_depth = 0 and ok = False
        and s' = "shared ?c12" and get = example_get and base_url = ?B]
    by (simp add: example_state_def gate_def)
  with r12 have r13: "?R ?c13" by (rule reachable.after_step)
  have "?S ?c13 ?c14"
    using step.collect[where c = ?c13 and e = ?ea and result = "[]" and F = "{#}"
        and max_workers = 10 and max_depth = 0 and get = example_get and base_url = ?B]
    by (simp add: example_state_def)
  with r13 have r14: "?R ?c14" by (rule reachable.after_step)
  have "?S ?c14 example_done"
    using step.wave[where c = ?c14 and max_workers = 10 and max_depth = 0 and get = example_get
        and base_url = ?B]
    by (simp add: example_state_def example_done_def)
  with r14 show ?thesis by (rule reachable.after_step)
qed

subsection \<open>The crawls that meet an exception\<close>

lemma example_entered:
  "reachable get ''http://h'' 0 10 False
     (example_state {''http://h''} {''http://h''} {#} [] []
        {#((''http://h'', 0, ''root''), Fetching)#} Collecting [(''http://h'', 0, ''root'')])"
proof -
  let ?B = "''http://h''"
  let ?seed = "(?B, 0::int, ''root'')"
  let ?R = "reachable get ?B 0 10 False"
  let ?S = "step get ?B 0 10"
  let ?c0 = "example_state {} {?B} {#} [] [?seed] {#} Submitting []"
  let ?c1 = "example_state {} {?B} {#} [] [] {#(?seed, Waiting)#} Submitting [?seed]"
  let ?c2 = "example_state {} {?B} {#} [] [] {#(?seed, Waiting)#} Collecting [?seed]"
  let ?c3 = "example_state {?B} {?B} {#} [] [] {#(?seed, Fetching)#} Collecting [?seed]"
  have "init ?B 10 False = ?c0"
    by (simp add: init_def example_state_def)
  then have r0: "?R ?c0"
    using reachable.at_start[of get ?B 0 10 False] by simp
  have "?S ?c0 ?c1"
    using step.submit[of ?c0 ?seed "[]" get ?B 0 10] by (simp add: example_state_def)
  with r0 have r1: "?R ?c1" by (rule reachable.after_step)
  have "?S ?c1 ?c2"
    using step.submitted[of ?c1 get ?B 0 10] by (simp add: example_state_def)
  with r1 have r2: "?R ?c2" by (rule reachable.after_step)
  have "?S ?c2 ?c3"
    using step.enter[where c = ?c2 and url = ?B and depth = 0 and source_url = "''root''"
        and F = "{#}" and max_workers = 10 and max_depth = 0 and ok = True
        and s' = "shared ?c3" and get = get and base_url = ?B]
    by (simp add: example_state_def gate_def)
  with r2 show ?thesis by (rule reachable.after_step)
qed


lemma example_failed_reachable:
  "reachable failing_get ''http://h'' 0 10 False example_failed"
proof -
  let ?B = "''http://h''"
  let ?seed = "(?B, 0::int, ''root'')"
  let ?x = "Other_exception ''LocationParseError''"
  let ?S = "step failing_get ?B 0 10"
  let ?c3 = "example_state {?B} {?B} {#} [] [] {#(?seed, Fetching)#} Collecting [?seed]"
  let ?c4 = "example_state {?B} {?B} {#} [?B] [] {#(?seed, Finished (Inl ?x))#} Collecting [?seed]"
  have "?S ?c3 ?c4"
    using step.fetch[where c = ?c3 and url = ?B and depth = 0 and source_url = "''root''"
        and F = "{#}" and max_workers = 10 and max_depth = 0 and get = failing_get and base_url = ?B]
    by (simp add: example_state_def failing_get_def)
  with example_entered have r4: "reachable failing_get ?B 0 10 False ?c4"
    by (rule reachable.after_step)
  have "?S ?c4 example_failed"
    using step.reraise[where c = ?c4 and e = ?seed and x = ?x and F = "{#}"
        and max_workers = 10 and max_depth = 0 and get = failing_get and base_url = ?B]
    by (simp add: example_state_def example_failed_def)
  with r4 show ?thesis by (rule reachable.after_step)
qed



subsection \<open>Stripping\<close>

lemma rstrip_decomp: "\<exists>k. s = rstrip is_slash s @ replicate k CHR ''/''"
proof -
  have "rev s = takeWhile is_slash (rev s) @ dropWhile is_slash (rev s)" by simp
  moreover have "takeWhile is_slash (rev s) = replicate (length (takeWhile is_slash (rev s))) CHR ''/''"
    by (rule replicate_length_same[symmetric]) (auto dest: set_takeWhileD simp: is_slash_def)
  ultimately have "rev s = replicate (length (takeWhile is_slash (rev s))) CHR ''/'' @ dropWhile is_slash (rev s)"
    by metis
  then have "s = rev (dropWhile is_slash (rev s)) @ replicate (length (takeWhile is_slash (rev s))) CHR ''/''"
    by (metis rev_append rev_replicate rev_rev_ident)
  then show ?thesis unfolding rstrip_def by blast
qed

lemma rstrip_last: "rstrip P s = [] \<or> \<not> P (last (rstrip P s))"
  unfolding rstrip_def
  by (metis hd_dropWhile last_rev rev_is_Nil_conv)

lemma lstrip_hd: "lstrip P s = [] \<or> \<not> P (hd (lstrip P s))"
  unfolding lstrip_def by (metis hd_dropWhile)

lemma rstrip_hd: "rstrip P s \<noteq> [] \<Longrightarrow> hd (rstrip P s) = hd s"
proof -
  assume a: "rstrip P s \<noteq> []"
  have "s = rstrip P s @ rev (takeWhile P (rev s))"
    unfolding rstrip_def by (metis rev_append rev_rev_ident takeWhile_dropWhile_id)
  then show ?thesis using a by (metis hd_append2)
qed

lemma rstrip_Nil_iff: "rstrip P s \<noteq> [] \<Longrightarrow> s \<noteq> []"
  by (auto simp: rstrip_def)

lemma strip_hd: "strip P s = [] \<or> \<not> P (hd (strip P s))"
  unfolding strip_def
  using lstrip_hd[of P s] rstrip_hd[of P "lstrip P s"] rstrip_Nil_iff[of P "lstrip P s"]
  by metis




subsection \<open>No fragment survives\<close>

lemma set_strip_subset: "set (strip P s) \<subseteq> set s"
  unfolding strip_def rstrip_def lstrip_def
  by (metis set_dropWhileD set_rev subsetI)

lemma set_split1_subset: "set (fst (split1 c s)) \<subseteq> set s" "set (snd (split1 c s)) \<subseteq> set s"
  unfolding split1_def
  by (auto dest: set_takeWhileD set_dropWhileD in_set_dropD)

lemma split1_fst_free: "c \<notin> set (fst (split1 c s))"
  unfolding split1_def by (auto dest: set_takeWhileD)

lemma splitnetloc_fst_free:
  "CHR ''#'' \<notin> set (fst (splitnetloc url))"
  unfolding splitnetloc_def Let_def by (auto dest: set_takeWhileD)

lemma set_splitnetloc_snd: "set (snd (splitnetloc url)) \<subseteq> set url"
  unfolding splitnetloc_def Let_def
  by (auto dest: set_dropWhileD in_set_dropD)

lemma ascii_lower_not_hash: "scheme_char c \<Longrightarrow> ascii_lower c \<noteq> CHR ''#''"
proof -
  assume sc: "scheme_char c"
  have c: "c \<noteq> CHR ''#''"
    using sc by (auto simp: scheme_char_def ascii_alpha_def ascii_digit_def)
  show ?thesis
  proof (cases "65 \<le> (of_char c :: nat) \<and> (of_char c :: nat) \<le> 90")
    case True
    then have "(of_char (ascii_lower c) :: nat) = of_char c + 32"
      by (simp add: ascii_lower_def Let_def)
    then have "(of_char (ascii_lower c) :: nat) \<noteq> of_char CHR ''#''"
      using True by simp
    then show ?thesis by metis
  next
    case False
    then show ?thesis using c by (auto simp: ascii_lower_def Let_def)
  qed
qed

lemma urlsplit_no_hash:
  assumes "urlsplit url sch = Inr (s, n, p, q, f)" and "CHR ''#'' \<notin> set sch"
  shows "CHR ''#'' \<notin> set s \<and> CHR ''#'' \<notin> set n \<and> CHR ''#'' \<notin> set p \<and> CHR ''#'' \<notin> set q"
proof -
  define url1 where "url1 = filter (\<lambda>c. \<not> unsafe_url_byte c) (lstrip c0_control_or_space url)"
  define scheme1 where "scheme1 = filter (\<lambda>c. \<not> unsafe_url_byte c) (strip c0_control_or_space sch)"
  define i where "i = length (takeWhile (\<lambda>c. c \<noteq> CHR '':'') url1)"
  define found where "found = (CHR '':'' \<in> set url1 \<and> 0 < i \<and> ascii_alpha (hd url1)
                   \<and> list_all scheme_char (take i url1))"
  define url2 where "url2 = (if found then drop (i + 1) url1 else url1)"
  define has_netloc where "has_netloc = (take 2 url2 = ''//'')"
  define url3 where "url3 = (if has_netloc then snd (splitnetloc url2) else url2)"
  define url4 where "url4 = (if CHR ''#'' \<in> set url3 then fst (split1 CHR ''#'' url3) else url3)"
  have res: "s = (if found then map ascii_lower (take i url1) else scheme1)"
    "n = (if has_netloc then fst (splitnetloc url2) else [])"
    "p = (if CHR ''?'' \<in> set url4 then fst (split1 CHR ''?'' url4) else url4)"
    "q = (if CHR ''?'' \<in> set url4 then snd (split1 CHR ''?'' url4) else [])"
    using assms(1)
    unfolding urlsplit_def Let_def url1_def[symmetric] scheme1_def[symmetric] i_def[symmetric]
      found_def[symmetric] url2_def[symmetric] has_netloc_def[symmetric] url3_def[symmetric]
      url4_def[symmetric]
    by (simp_all split: if_splits)
  have "CHR ''#'' \<notin> set scheme1"
    using assms(2) set_strip_subset[of c0_control_or_space sch] by (auto simp: scheme1_def)
  moreover have "CHR ''#'' \<notin> set (map ascii_lower (take i url1))" if found
  proof
    assume "CHR ''#'' \<in> set (map ascii_lower (take i url1))"
    then obtain x where "x \<in> set (take i url1)" and "ascii_lower x = CHR ''#''" by auto
    moreover have "scheme_char x"
      using that calculation(1) by (simp add: found_def list_all_iff)
    ultimately show False using ascii_lower_not_hash by blast
  qed
  ultimately have 1: "CHR ''#'' \<notin> set s" unfolding res by auto
  have 2: "CHR ''#'' \<notin> set n" unfolding res using splitnetloc_fst_free by auto
  have u4: "CHR ''#'' \<notin> set url4"
    unfolding url4_def using split1_fst_free[of "CHR ''#''" url3] by auto
  have 3: "CHR ''#'' \<notin> set p" "CHR ''#'' \<notin> set q"
    unfolding res using u4 set_split1_subset[of "CHR ''?''" url4] by auto
  show ?thesis using 1 2 3 by simp
qed

lemma set_splitparams_subset:
  "set (fst (splitparams url)) \<subseteq> set url" "set (snd (splitparams url)) \<subseteq> set url"
proof -
  define t where "t = rev (takeWhile (\<lambda>c. c \<noteq> CHR ''/'') (rev url))"
  have t: "set t \<subseteq> set url"
    unfolding t_def by (auto dest: set_takeWhileD)
  have "set (take k url) \<subseteq> set url" for k by (auto dest: in_set_takeD)
  then show "set (fst (splitparams url)) \<subseteq> set url" "set (snd (splitparams url)) \<subseteq> set url"
    unfolding splitparams_def Let_def t_def[symmetric]
    using t set_split1_subset[of "CHR '';''" t] set_split1_subset[of "CHR '';''" url]
    by (auto split: if_splits)
qed

lemma urlparse_no_hash:
  assumes "urlparse url [] = Inr (s, n, p, a, q, f)"
  shows "CHR ''#'' \<notin> set s \<and> CHR ''#'' \<notin> set n \<and> CHR ''#'' \<notin> set p \<and> CHR ''#'' \<notin> set a
         \<and> CHR ''#'' \<notin> set q"
proof -
  from assms obtain p0 where sp: "urlsplit url [] = Inr (s, n, p0, q, f)"
    and p: "set p \<subseteq> set p0" and a: "set a \<subseteq> set p0"
    unfolding urlparse_def
    using set_splitparams_subset
    by (auto split: sum.splits if_splits)
  from urlsplit_no_hash[OF sp] show ?thesis using p a by auto
qed

lemma urlunparse_no_hash:
  assumes "CHR ''#'' \<notin> set s \<and> CHR ''#'' \<notin> set n \<and> CHR ''#'' \<notin> set p \<and> CHR ''#'' \<notin> set a
         \<and> CHR ''#'' \<notin> set q"
  shows "CHR ''#'' \<notin> set (urlunparse (s, n, p, a, q, []))"
  using assms unfolding urlunparse_def urlunsplit_def Let_def by (auto split: if_splits)

lemma urldefrag_no_hash:
  assumes "urldefrag url = Inr (clean, frag)"
  shows "CHR ''#'' \<notin> set clean"
proof (cases "CHR ''#'' \<in> set url")
  case False
  then show ?thesis using assms by (simp add: urldefrag_def)
next
  case True
  then obtain s n p a q where "urlparse url [] = Inr (s, n, p, a, q, frag)"
    and "clean = urlunparse (s, n, p, a, q, [])"
    using assms unfolding urldefrag_def by (auto split: sum.splits)
  then show ?thesis using urlparse_no_hash urlunparse_no_hash by blast
qed

subsection \<open>The network location of an absolute URL\<close>

lemma scheme_char_facts:
  assumes "scheme_char c"
  shows "\<not> unsafe_url_byte c" "c \<noteq> CHR '':''"
  using assms
  by (auto simp: scheme_char_def ascii_alpha_def ascii_digit_def unsafe_url_byte_def Let_def)

lemma ascii_alpha_not_c0: "ascii_alpha c \<Longrightarrow> \<not> c0_control_or_space c"
  by (auto simp: ascii_alpha_def c0_control_or_space_def Let_def)

lemma urlsplit_absolute:
  assumes s: "scheme_ok s" and a: "list_all authority_char a" and p: "rest_ok p"
  shows "\<exists>pa q f. urlsplit (s @ ''://'' @ a @ p) sch = Inr (map ascii_lower s, a, pa, q, f)"
proof -
  define p' where "p' = filter (\<lambda>c. \<not> unsafe_url_byte c) p"
  define delim where "delim = (\<lambda>c. c = CHR ''/'' \<or> c = CHR ''?'' \<or> c = CHR ''#'')"
  have s1: "s \<noteq> []" "ascii_alpha (hd s)" "list_all scheme_char s"
    using s by (simp_all add: scheme_ok_def)
  have p': "p' = [] \<or> delim (hd p')"
  proof (cases p)
    case Nil
    then show ?thesis by (simp add: p'_def)
  next
    case (Cons x xs)
    then have "delim x" using p by (auto simp: rest_ok_def delim_def)
    then have "\<not> unsafe_url_byte x" by (auto simp: delim_def unsafe_url_byte_def)
    then show ?thesis using Cons \<open>delim x\<close> by (simp add: p'_def)
  qed
  have ls: "lstrip c0_control_or_space (s @ ''://'' @ a @ p) = s @ ''://'' @ a @ p"
    using s1(1,2) ascii_alpha_not_c0 by (cases s) (auto simp: lstrip_def)
  have fs: "filter (\<lambda>c. \<not> unsafe_url_byte c) s = s"
    using s1(3) scheme_char_facts(1) by (simp add: list_all_iff)
  have fa: "filter (\<lambda>c. \<not> unsafe_url_byte c) a = a"
    using a by (simp add: list_all_iff authority_char_def)
  define u where "u = s @ ''://'' @ a @ p'"
  have url1: "filter (\<lambda>c. \<not> unsafe_url_byte c) (lstrip c0_control_or_space (s @ ''://'' @ a @ p)) = u"
  proof -
    have fc: "filter (\<lambda>c. \<not> unsafe_url_byte c) ''://'' = ''://''"
      by (simp add: unsafe_url_byte_def)
    show ?thesis
      unfolding ls filter_append fs fa fc p'_def u_def ..
  qed
  have tw: "length (takeWhile (\<lambda>c. c \<noteq> CHR '':'') u) = length s"
    unfolding u_def using s1(3) scheme_char_facts(2) by (simp add: list_all_iff takeWhile_append2)
  have f1: "CHR '':'' \<in> set u" unfolding u_def by simp
  have f2: "0 < length s" using s1(1) by simp
  have f3: "ascii_alpha (hd u)" unfolding u_def using s1(1,2) by simp
  have f4: "take (length s) u = s" unfolding u_def by simp
  have dr: "drop (length s + 1) u = ''//'' @ a @ p'"
    unfolding u_def by simp
  have nd: "\<forall>c\<in>set a. \<not> delim c"
    using a by (auto simp: list_all_iff authority_char_def delim_def)
  have tk: "takeWhile (\<lambda>c. \<not> delim c) (a @ p') = a"
    using nd p' by (cases p') (simp_all add: takeWhile_append2)
  have sn: "fst (splitnetloc (''//'' @ a @ p')) = a"
    unfolding splitnetloc_def Let_def delim_def[symmetric] using tk by simp
  have t2: "take 2 (''//'' @ a @ p') = ''//''" by simp
  have br: "CHR ''['' \<notin> set a" "CHR '']'' \<notin> set a"
    using a by (auto simp: list_all_iff authority_char_def)
  show ?thesis
    unfolding urlsplit_def Let_def url1 tw
    by (simp only: f1 f2 f3 f4 s1(3) dr sn t2 br simp_thms if_True if_False) blast
qed

lemma netloc_of_absolute:
  assumes "scheme_ok s" and "list_all authority_char a" and "rest_ok p"
  shows "netloc_of (s @ ''://'' @ a @ p) = Inr a"
proof -
  from urlsplit_absolute[OF assms, of "[]"] obtain pa q f
    where "urlsplit (s @ ''://'' @ a @ p) [] = Inr (map ascii_lower s, a, pa, q, f)" by blast
  then show ?thesis
    by (simp add: netloc_of_def urlparse_def)
qed

lemma strip_last: "strip P s = [] \<or> \<not> P (last (strip P s))"
  unfolding strip_def by (rule rstrip_last)

lemma set_rstrip_subset: "set (rstrip P s) \<subseteq> set s"
  unfolding rstrip_def by (metis set_dropWhileD set_rev subsetI)

subsection \<open>A call is an uninterrupted run of its task\<close>

lemma extracting_run:
  assumes "extract_links url base_url depth tags acc s = (r, s')"
  shows "(step get base_url max_depth max_workers)\<^sup>*\<^sup>*
           (c\<lparr>shared := s, futures := add_mset ((url, depth, source_url), Extracting tags acc) F\<rparr>)
           (c\<lparr>shared := s', futures := add_mset ((url, depth, source_url), Finished r) F\<rparr>)"
  using assms
proof (induction tags arbitrary: acc s)
  case Nil
  let ?c = "c\<lparr>shared := s, futures := add_mset ((url, depth, source_url), Extracting [] acc) F\<rparr>"
  have "step get base_url max_depth max_workers ?c
          (?c\<lparr>futures := add_mset ((url, depth, source_url), Finished (Inr acc)) F\<rparr>)"
    by (rule step.return) simp
  then show ?case using Nil by auto
next
  case (Cons t tags)
  let ?c = "c\<lparr>shared := s, futures := add_mset ((url, depth, source_url), Extracting (t # tags) acc) F\<rparr>"
  obtain r1 s1 where d: "discover url base_url depth t acc s = (r1, s1)"
    by (cases "discover url base_url depth t acc s")
  have st: "step get base_url max_depth max_workers ?c
          (?c\<lparr>shared := s1,
               futures := add_mset ((url, depth, source_url),
                            case r1 of Inl x \<Rightarrow> Finished (Inl x)
                                     | Inr result_links' \<Rightarrow> Extracting tags result_links') F\<rparr>)"
    by (rule step.link[where tag_href = t and tags = tags and result_links = acc]) (simp_all add: d)
  show ?case
  proof (cases r1)
    case (Inl x)
    then have "r = Inl x" "s' = s1" using Cons.prems d by simp_all
    then show ?thesis using st Inl by auto
  next
    case (Inr acc')
    then have "extract_links url base_url depth tags acc' s1 = (r, s')"
      using Cons.prems d by simp
    from Cons.IH[OF this] st Inr show ?thesis
      by (auto intro: converse_rtranclp_into_rtranclp)
  qed
qed

lemma task_run:
  assumes w: "int (size (filter_mset running F)) < max_workers"
    and f: "fetch_and_extract get url base_url depth max_depth source_url (shared c) = (r, s')"
    and c: "futures c = add_mset ((url, depth, source_url), Waiting) F"
  shows "(step get base_url max_depth max_workers)\<^sup>*\<^sup>*
           c (c\<lparr>shared := s', futures := add_mset ((url, depth, source_url), Finished r) F\<rparr>)"
proof -
  let ?S = "step get base_url max_depth max_workers"
  let ?e = "(url, depth, source_url)"
  obtain ok s0 where g: "gate url depth max_depth (shared c) = (ok, s0)"
    by (cases "gate url depth max_depth (shared c)")
  have st0: "?S c (c\<lparr>shared := s0, futures := add_mset (?e, if ok then Fetching else Finished (Inr [])) F\<rparr>)"
    using c w g by (rule step.enter)
  show ?thesis
  proof (cases ok)
    case False
    then have "r = Inr []" "s' = s0" using f g by (simp_all add: fetch_and_extract_def)
    then show ?thesis using st0 False by auto
  next
    case True
    let ?c1 = "c\<lparr>shared := s0, futures := add_mset (?e, Fetching) F\<rparr>"
    let ?s1 = "s0\<lparr>requests := requests s0 @ [url]\<rparr>"
    let ?after = "case get url of Response status page \<Rightarrow> Responded status page
                    | Request_exception e \<Rightarrow> Excepted e
                    | Raises x \<Rightarrow> Finished (Inl x)"
    have s01: "?S c ?c1" using st0 True by simp
    have "?S ?c1 (?c1\<lparr>shared := (shared ?c1)\<lparr>requests := requests (shared ?c1) @ [url]\<rparr>,
            futures := add_mset (?e, ?after) F\<rparr>)"
      by (rule step.fetch) simp
    then have s12: "?S ?c1 (c\<lparr>shared := ?s1, futures := add_mset (?e, ?after) F\<rparr>)"
      by simp
    show ?thesis
    proof (cases "get url")
      case (Raises x)
      have "r = Inl x" "s' = ?s1"
        using f g True Raises by (simp_all add: fetch_and_extract_def)
      with s01 s12 Raises show ?thesis by auto
    next
      case (Request_exception e)
      let ?c2 = "c\<lparr>shared := ?s1, futures := add_mset (?e, Excepted e) F\<rparr>"
      have "?S ?c2 (?c2\<lparr>shared := record_error url e source_url (shared ?c2),
              futures := add_mset (?e, Finished (Inr [])) F\<rparr>)"
        by (rule step.handle) simp
      moreover have "r = Inr []" "s' = record_error url e source_url ?s1"
        using f g True Request_exception by (simp_all add: fetch_and_extract_def)
      ultimately have "?S ?c2 (c\<lparr>shared := s', futures := add_mset (?e, Finished r) F\<rparr>)"
        by simp
      with s01 s12 Request_exception show ?thesis by auto
    next
      case (Response status page)
      let ?c2 = "c\<lparr>shared := ?s1, futures := add_mset (?e, Responded status page) F\<rparr>"
      let ?s2 = "count_status status ?s1"
      let ?c3 = "c\<lparr>shared := ?s2, futures := add_mset (?e, Counted status page) F\<rparr>"
      have "?S ?c2 (?c2\<lparr>shared := count_status status (shared ?c2),
              futures := add_mset (?e, Counted status page) F\<rparr>)"
        by (rule step.count) simp
      then have s23: "?S ?c2 ?c3" by simp
      have s02: "?S\<^sup>*\<^sup>* c ?c2" using s01 s12 Response by auto
      show ?thesis
      proof (cases "status \<ge> 400")
        case True
        have "?S ?c3 (?c3\<lparr>shared := record_broken url status source_url (shared ?c3),
                futures := add_mset (?e, Finished (Inr [])) F\<rparr>)"
          using _ True by (rule step.broken_page) simp
        moreover have "r = Inr []" "s' = record_broken url status source_url ?s2"
          using f g \<open>ok\<close> Response True by (simp_all add: fetch_and_extract_def)
        ultimately have "?S ?c3 (c\<lparr>shared := s', futures := add_mset (?e, Finished r) F\<rparr>)"
          by simp
        with s02 s23 show ?thesis by auto
      next
        case False
        have "?S ?c3 (?c3\<lparr>futures := add_mset (?e, case page of Links hrefs \<Rightarrow> Extracting hrefs []
                                                      | Unparsable x \<Rightarrow> Finished (Inl x)) F\<rparr>)"
          using _ False by (rule step.parse) simp
        then have s34: "?S ?c3 (c\<lparr>shared := ?s2,
            futures := add_mset (?e, case page of Links hrefs \<Rightarrow> Extracting hrefs []
                                       | Unparsable x \<Rightarrow> Finished (Inl x)) F\<rparr>)"
          by simp
        show ?thesis
        proof (cases page)
          case (Unparsable x)
          have "r = Inl x" "s' = ?s2"
            using f g \<open>ok\<close> Response False Unparsable by (simp_all add: fetch_and_extract_def)
          with s02 s23 s34 Unparsable show ?thesis by auto
        next
          case (Links hrefs)
          let ?c4 = "c\<lparr>shared := ?s2, futures := add_mset (?e, Extracting hrefs []) F\<rparr>"
          have s34': "?S ?c3 ?c4" using s34 Links by simp
          have "extract_links url base_url depth hrefs [] ?s2 = (r, s')"
            using f g \<open>ok\<close> Response False Links by (simp add: fetch_and_extract_def)
          from extracting_run[OF this, where get = get and max_depth = max_depth
              and max_workers = max_workers and c = c and source_url = source_url and F = F]
          have "?S\<^sup>*\<^sup>* ?c4 (c\<lparr>shared := s', futures := add_mset (?e, Finished r) F\<rparr>)" .
          with s02 s23 s34' show ?thesis by auto
        qed
      qed
    qed
  qed
qed

section \<open>The claims\<close>

text \<open>
  Claim C1. The gate of lines 77-80 is one step under the lock: it admits a URL exactly
  when the URL is not yet visited and the depth is within the bound, and inserts the URL into
  the visited set in that same step. In every reachable state of the crawl, whatever the
  interleaving of the workers, no URL has been requested twice and every requested URL is
  visited; a step never removes a URL from the visited set, and a step requests only a URL
  that the gate has inserted before.
\<close>

theorem each_url_fetched_once:
  assumes r: "reachable get base_url max_depth max_workers realtime c"
  shows "distinct (requests (shared c))
       \<and> set (requests (shared c)) \<subseteq> visited (shared c)
       \<and> (\<forall>c'. step get base_url max_depth max_workers c c' \<longrightarrow>
             visited (shared c) \<subseteq> visited (shared c')
             \<and> (\<forall>u. u \<in> set (requests (shared c')) \<and> u \<notin> set (requests (shared c)) \<longrightarrow>
                    u \<in> visited (shared c)))
       \<and> (\<forall>url depth s. gate url depth max_depth s =
             (url \<notin> visited s \<and> depth \<le> max_depth,
              if url \<notin> visited s \<and> depth \<le> max_depth
              then s\<lparr>visited := insert url (visited s)\<rparr> else s))"
proof -
  from reachable_fetch_inv[OF r]
  have fin: "finite (visited (shared c))"
    and eq: "image_mset (\<lambda>t. fst (fst t)) (filter_mset (\<lambda>t. awaiting_fetch (snd t)) (futures c))
          + mset (requests (shared c)) = mset_set (visited (shared c))"
    by (simp_all add: fetch_inv_def)
  have sub: "mset (requests (shared c)) \<subseteq># mset_set (visited (shared c))"
    by (metis eq mset_subset_eq_add_right)
  then have 1: "distinct (requests (shared c))"
    by (rule mset_le_mset_set_distinct)
  have 2: "set (requests (shared c)) \<subseteq> visited (shared c)"
    using set_mset_mono[OF sub] fin by simp
  have 3: "visited (shared c) \<subseteq> visited (shared c')
      \<and> (\<forall>u. u \<in> set (requests (shared c')) \<and> u \<notin> set (requests (shared c)) \<longrightarrow>
             u \<in> visited (shared c))"
    if st: "step get base_url max_depth max_workers c c'" for c'
  proof -
    have r': "reachable get base_url max_depth max_workers realtime c'"
      using r st by (rule reachable.after_step)
    have "u \<in> visited (shared c)"
      if "u \<in> set (requests (shared c'))" "u \<notin> set (requests (shared c))" for u
      using st that
    proof (cases rule: step.cases)
      case (fetch url depth source_url F)
      then have "u = url" using that by auto
      moreover have "url \<in># mset_set (visited (shared c))"
        unfolding eq[symmetric] using fetch(2) by simp
      ultimately show ?thesis using fin by simp
    next
      case (link url depth source_url tag_href tags result_links F r s')
      then show ?thesis using that discover_frame[OF link(3)] by simp
    qed (auto simp: gate_def count_status_def record_broken_def record_error_def split: if_splits)
    then show ?thesis using step_visited_mono[OF st] by blast
  qed
  have 4: "gate url depth max_depth s =
             (url \<notin> visited s \<and> depth \<le> max_depth,
              if url \<notin> visited s \<and> depth \<le> max_depth
              then s\<lparr>visited := insert url (visited s)\<rparr> else s)" for url depth s
    by (auto simp: gate_def)
  show ?thesis using 1 2 3 4 by blast
qed

text \<open>The sample crawl has requested its start page once.\<close>

theorem each_url_fetched_once_witness:
  "reachable example_get ''http://h'' 0 10 False example_done
   \<and> requests (shared example_done) = [''http://h'']
   \<and> distinct (requests (shared example_done))
   \<and> set (requests (shared example_done)) \<subseteq> visited (shared example_done)"
  using each_url_fetched_once [OF example_reachable] example_reachable
  by (simp add: example_done_def example_state_def)

text \<open>
  Claim C2. When the crawl has ended (the scheduler has left its loop: the queue is empty
  and every future has been collected), every discovered URL has exactly one dispatched
  entry, and the visited set is the discovered set without the URLs whose entry has a depth
  beyond the maximum. With maximum depth 0 the visited set is the start URL alone.
\<close>

theorem crawl_done_visited:
  assumes r: "reachable get base_url max_depth max_workers realtime c" and d: "phase c = Done"
  shows "queue c = [] \<and> futures c = {#}
       \<and> distinct (map fst (dispatched c))
       \<and> discovered (shared c) = fst ` set (dispatched c)
       \<and> visited (shared c) =
           discovered (shared c) - {u. \<exists>d src. (u, d, src) \<in> set (dispatched c) \<and> d > max_depth}
       \<and> (max_depth = 0 \<longrightarrow> visited (shared c) = {base_url})"
proof -
  from reachable_done[OF r d] have f: "futures c = {#}" and q: "queue c = []" by simp_all
  have "\<not> aborting c" using d f by (simp add: aborting_def)
  with r have inv: "frontier_inv max_depth c" by (rule reachable_frontier_inv)
  have fr: "frontier c = mset (dispatched c)"
    using f q by (simp add: frontier_def)
  have ms: "mset (map fst (dispatched c)) = mset_set (discovered (shared c))"
    and fin: "finite (discovered (shared c))"
    using inv fr by (simp_all add: frontier_inv_def)
  have dist: "distinct (map fst (dispatched c))"
    using ms by (intro mset_le_mset_set_distinct[of _ "discovered (shared c)"]) simp
  have "set_mset (mset (map fst (dispatched c))) = set_mset (mset_set (discovered (shared c)))"
    using ms by simp
  then have disc: "discovered (shared c) = fst ` set (dispatched c)"
    using fin by simp
  have vis: "visited (shared c) = {u. \<exists>d src. (u, d, src) \<in> set (dispatched c) \<and> d \<le> max_depth}"
    using inv f by (simp add: frontier_inv_def)
  have uniq: "d = d'" if "(u, d, src) \<in> set (dispatched c)" "(u, d', src') \<in> set (dispatched c)"
    for u d src d' src'
    using distinct_map_fst_unique[OF dist that] by simp
  have diff: "visited (shared c) =
      discovered (shared c) - {u. \<exists>d src. (u, d, src) \<in> set (dispatched c) \<and> d > max_depth}"
  proof (intro set_eqI iffI)
    fix u assume "u \<in> visited (shared c)"
    then obtain d src where m: "(u, d, src) \<in> set (dispatched c)" and le: "d \<le> max_depth"
      unfolding vis by blast
    have "\<not> d' > max_depth" if "(u, d', src') \<in> set (dispatched c)" for d' src'
      using uniq[OF m that] le by simp
    moreover have "u \<in> discovered (shared c)"
      unfolding disc using m by force
    ultimately show "u \<in> discovered (shared c)
        - {u. \<exists>d src. (u, d, src) \<in> set (dispatched c) \<and> d > max_depth}"
      by blast
  next
    fix u assume a: "u \<in> discovered (shared c)
        - {u. \<exists>d src. (u, d, src) \<in> set (dispatched c) \<and> d > max_depth}"
    then obtain d src where m: "(u, d, src) \<in> set (dispatched c)"
      unfolding disc by force
    with a have "\<not> d > max_depth" by blast
    with m show "u \<in> visited (shared c)" unfolding vis by force
  qed
  have zero: "visited (shared c) = {base_url}" if "max_depth = 0"
  proof -
    note di = reachable_depth_inv[OF r, unfolded depth_inv_def]
    have seed: "(base_url, 0, ''root'') \<in> set (dispatched c)"
      using di q by simp
    have others: "e = (base_url, 0, ''root'') \<or> 1 \<le> fst (snd e)" if "e \<in> set (dispatched c)" for e
    proof -
      have "e \<in># frontier c + image_mset fst (futures c)"
        using that fr by simp
      then show ?thesis using di by blast
    qed
    show ?thesis
      unfolding vis that using seed others by fastforce
  qed
  show ?thesis using q f dist disc diff zero by blast
qed

text \<open>
  The sample crawl of depth 0 discovers the linked page and visits the start page only.
\<close>

theorem crawl_done_visited_witness:
  "reachable example_get ''http://h'' 0 10 False example_done
   \<and> phase example_done = Done
   \<and> discovered (shared example_done) = {''http://h/a'', ''http://h''}
   \<and> visited (shared example_done) =
       discovered (shared example_done)
       - {u. \<exists>d src. (u, d, src) \<in> set (dispatched example_done) \<and> d > 0}
   \<and> visited (shared example_done) = {''http://h''}
   \<and> card (visited (shared example_done)) = 1"
proof -
  have d: "phase example_done = Done"
    by (simp add: example_done_def example_state_def)
  have "visited (shared example_done) = {''http://h''}"
    "discovered (shared example_done) = {''http://h/a'', ''http://h''}"
    by (simp_all add: example_done_def example_state_def)
  then show ?thesis
    using crawl_done_visited [OF example_reachable d] example_reachable d by simp
qed

text \<open>
  Claim C3. For an entry whose depth exceeds the maximum, the call returns the empty list
  and the state it leaves is the state it found: nothing is requested, and the visited set,
  the histogram, the broken list and the discovered set are as before.
\<close>

theorem depth_exceeded_is_noop:
  "depth > max_depth \<Longrightarrow>
   fetch_and_extract get url base_url depth max_depth source_url s = (Inr [], s)"
  by (simp add: fetch_and_extract_def gate_def)

theorem depth_exceeded_is_noop_witness:
  "(1::int) > 0 \<and>
   fetch_and_extract example_get ''http://h/a'' ''http://h'' 1 0 ''http://h'' (shared example_done)
     = (Inr [], shared example_done)"
  using depth_exceeded_is_noop [of 0 1 example_get "''http://h/a''" "''http://h''" "''http://h''"
     "shared example_done"]
  by simp

text \<open>
  Claim C4. For a URL that passes the gate and whose response has a status of 400 or more,
  the call increments the histogram at that status, appends one record with the integer
  status and the source URL to the broken list, writes that row to the realtime file when
  there is one, changes the discovered set not at all, and returns no entries.
\<close>

theorem broken_status_recorded:
  assumes "url \<notin> visited s" and "depth \<le> max_depth"
    and "get url = Response status page" and "status \<ge> 400"
  shows "fetch_and_extract get url base_url depth max_depth source_url s =
     (Inr [],
      s\<lparr>visited := insert url (visited s),
        requests := requests s @ [url],
        stats := add_mset (Code status) (stats s),
        broken := broken s @ [(url, Status status, source_url)],
        realtime_export_file :=
          map_option (\<lambda>rows. rows @ [[Int_cell status, Str_cell url, Str_cell source_url]])
            (realtime_export_file s)\<rparr>)"
  using assms
  by (cases "realtime_export_file s")
     (simp_all add: fetch_and_extract_def gate_def count_status_def record_broken_def
        export_row_realtime_def Let_def)

theorem broken_status_recorded_witness:
  "''http://h/b'' \<notin> visited (shared example_done) \<and> (1::int) \<le> 1
   \<and> example_get ''http://h/b'' = Response 404 (Links []) \<and> (404::int) \<ge> 400
   \<and> fetch_and_extract example_get ''http://h/b'' ''http://h'' 1 1 ''http://h'' (shared example_done)
     = (Inr [],
        (shared example_done)
          \<lparr>visited := {''http://h/b'', ''http://h''},
           requests := [''http://h'', ''http://h/b''],
           stats := {#Code 404, Code 200#},
           broken := [(''http://h/b'', Status 404, ''http://h'')]\<rparr>)"
proof -
  have a: "''http://h/b'' \<notin> visited (shared example_done)"
    by (simp add: example_done_def example_state_def)
  have b: "example_get ''http://h/b'' = Response 404 (Links [])"
    by (simp add: example_get_def)
  show ?thesis
    using broken_status_recorded [where url = "''http://h/b''" and s = "shared example_done"
        and depth = 1 and max_depth = 1 and get = example_get and status = 404 and page = "Links []"
        and base_url = "''http://h''" and source_url = "''http://h''"] a b
    by (simp add: example_done_def example_state_def)
qed




text \<open>
  Claim C6. The final export writes the header row and then, in the order of the broken
  list, one row for each record whose error is the status 400, 404 or 500 (written as that
  integer) or the text of an exception (written as \<open>ERROR\<close>); a record with any other status
  is left out.
\<close>

theorem final_export_rows:
  "export_errors_to_csv filename s files filename =
     Some ([Str_cell ''Error'', Str_cell ''URL'', Str_cell ''Source'']
           # map csv_row (filter exported (broken s)))"
  by (simp add: export_errors_to_csv_def export_rows_filter writerow_def)

text \<open>A 404 and a timeout are exported, a 403 is not.\<close>

theorem final_export_rows_witness:
  "export_errors_to_csv ''out.csv''
     ((shared example_done)
        \<lparr>broken := [(''http://h/b'', Status 404, ''http://h''),
                    (''http://h/c'', Status 403, ''http://h''),
                    (''http://h/d'', Message ''timed out'', ''http://h/a'')]\<rparr>)
     Map.empty ''out.csv''
   = Some [[Str_cell ''Error'', Str_cell ''URL'', Str_cell ''Source''],
           [Int_cell 404, Str_cell ''http://h/b'', Str_cell ''http://h''],
           [Str_cell ''ERROR'', Str_cell ''http://h/d'', Str_cell ''http://h/a'']]"
  using final_export_rows [of "''out.csv''"
      "(shared example_done)
        \<lparr>broken := [(''http://h/b'', Status 404, ''http://h''),
                    (''http://h/c'', Status 403, ''http://h''),
                    (''http://h/d'', Message ''timed out'', ''http://h/a'')]\<rparr>" Map.empty]
  by (simp add: exported_def csv_row_def)




text \<open>
  Claim C8, as amended. The normalizer resolves the link against the base, drops the
  fragment, removes leading and trailing whitespace and then strips every trailing slash:
  the result ends in no slash, and the cleaned string is the result followed by slashes
  only.
\<close>

theorem normalize_url_result:
  assumes "normalize_url base link = Inr r"
  shows "\<exists>joined clean frag k.
           urljoin base link = Inr joined \<and> urldefrag joined = Inr (clean, frag)
           \<and> CHR ''#'' \<notin> set clean
           \<and> (strip isspace clean = [] \<or>
                (\<not> isspace (hd (strip isspace clean)) \<and> \<not> isspace (last (strip isspace clean))))
           \<and> strip isspace clean = r @ replicate k CHR ''/''
           \<and> (r = [] \<or> last r \<noteq> CHR ''/'')
           \<and> CHR ''#'' \<notin> set r"
proof -
  from assms obtain joined clean frag where j: "urljoin base link = Inr joined"
    and d: "urldefrag joined = Inr (clean, frag)"
    and r: "r = rstrip is_slash (strip isspace clean)"
    unfolding normalize_url_def by (auto split: sum.splits)
  obtain k where k: "strip isspace clean = r @ replicate k CHR ''/''"
    unfolding r using rstrip_decomp by blast
  have h: "CHR ''#'' \<notin> set clean" using d by (rule urldefrag_no_hash)
  have "set r \<subseteq> set clean"
    unfolding r using set_rstrip_subset set_strip_subset by (meson subset_trans)
  then have hr: "CHR ''#'' \<notin> set r" using h by auto
  have l: "r = [] \<or> last r \<noteq> CHR ''/''"
    unfolding r using rstrip_last[of is_slash] by (simp add: is_slash_def)
  have w: "strip isspace clean = [] \<or>
      (\<not> isspace (hd (strip isspace clean)) \<and> \<not> isspace (last (strip isspace clean)))"
    using strip_hd[of isspace clean] strip_last[of isspace clean] by blast
  show ?thesis using j d h w k l hr by blast
qed

theorem normalize_url_result_witness:
  "normalize_url ''http://example.com/docs/'' '' guide///#intro'' = Inr ''http://example.com/docs/guide''
   \<and> (\<exists>joined clean frag k.
         urljoin ''http://example.com/docs/'' '' guide///#intro'' = Inr joined
         \<and> urldefrag joined = Inr (clean, frag)
         \<and> CHR ''#'' \<notin> set clean
         \<and> strip isspace clean = ''http://example.com/docs/guide'' @ replicate k CHR ''/'')"
proof -
  have a: "normalize_url ''http://example.com/docs/'' '' guide///#intro''
      = Inr ''http://example.com/docs/guide''"
    by code_simp
  show ?thesis
    using normalize_url_result [OF a] a by blast
qed

text \<open>
  Claim C8 as stated fails: of two trailing slashes none is kept.
\<close>

theorem normalize_url_strips_all_slashes:
  "normalize_url ''http://example.com'' ''/a//'' = Inr ''http://example.com/a''
   \<and> normalize_url_spec ''http://example.com'' ''/a//'' = Inr ''http://example.com/a/''
   \<and> normalize_url ''http://example.com'' ''/a//'' \<noteq> normalize_url_spec ''http://example.com'' ''/a//''"
  by code_simp

text \<open>
  Claim C9, as amended. For two URLs of the form scheme://authority followed by a path,
  query or fragment, with no bracketed host, the scope filter returns true exactly when the
  two authorities are the same string. The scheme and what follows the authority do not
  matter; the port, being part of the authority, does.
\<close>

theorem is_internal_compares_netloc:
  assumes "scheme_ok s1" and "list_all authority_char a1" and "rest_ok p1"
    and "scheme_ok s2" and "list_all authority_char a2" and "rest_ok p2"
  shows "is_internal (s1 @ ''://'' @ a1 @ p1) (s2 @ ''://'' @ a2 @ p2) = Inr (a2 = a1)"
  using netloc_of_absolute[OF assms(1-3)] netloc_of_absolute[OF assms(4-6)]
  by (simp add: is_internal_def)

theorem is_internal_compares_netloc_witness:
  "scheme_ok ''http'' \<and> scheme_ok ''https''
   \<and> list_all authority_char ''example.com'' \<and> list_all authority_char ''example.com:8080''
   \<and> rest_ok ''/'' \<and> rest_ok ''/a?x=1''
   \<and> is_internal (''http'' @ ''://'' @ ''example.com'' @ ''/'')
        (''https'' @ ''://'' @ ''example.com'' @ ''/a?x=1'') = Inr True
   \<and> is_internal (''http'' @ ''://'' @ ''example.com'' @ ''/'')
        (''http'' @ ''://'' @ ''example.com:8080'' @ ''/a?x=1'') = Inr False"
proof -
  have s: "scheme_ok ''http''" "scheme_ok ''https''" by code_simp+
  have a: "list_all authority_char ''example.com''" "list_all authority_char ''example.com:8080''"
    by code_simp+
  have p: "rest_ok ''/''" "rest_ok ''/a?x=1''" by code_simp+
  show ?thesis
    using is_internal_compares_netloc [OF s(1) a(1) p(1) s(2) a(1) p(2)]
      is_internal_compares_netloc [OF s(1) a(1) p(1) s(1) a(2) p(2)] s a p
    by simp
qed

text \<open>
  Claim C9 as stated fails: the same host with a different explicit port is external.
\<close>

theorem is_internal_port_sensitive:
  "is_internal ''http://example.com/'' ''http://example.com:8080/a'' = Inr False
   \<and> netloc_of ''http://example.com/'' = Inr ''example.com''
   \<and> netloc_of ''http://example.com:8080/a'' = Inr ''example.com:8080''"
  by code_simp

text \<open>
  Claim C10, as amended. A URL that enters the visited set contributes one increment to
  the histogram, except that a URL whose request raises an exception other than a
  \<open>RequestException\<close> contributes none. So in every reachable state of the crawl in which no
  task occupies a worker, the counts of the histogram and the number of such requests add up
  to the size of the visited set. The counts alone add up to it when no visited URL has such
  a request, and when the crawl has ended by leaving the loop of the scheduler.
\<close>

theorem histogram_counts_visited:
  assumes r: "reachable get base_url max_depth max_workers realtime c"
    and idle: "filter_mset running (futures c) = {#} \<or> phase c = Done"
  shows "(\<Sum>k \<in> set_mset (stats (shared c)). count (stats (shared c)) k)
           + length (filter (\<lambda>u. uncaught (get u)) (requests (shared c)))
         = card (visited (shared c))
       \<and> ((\<forall>u \<in> visited (shared c). \<not> uncaught (get u)) \<or> phase c = Done \<longrightarrow>
            (\<Sum>k \<in> set_mset (stats (shared c)). count (stats (shared c)) k)
              = card (visited (shared c)))"
proof -
  let ?raised = "filter (\<lambda>u. uncaught (get u)) (requests (shared c))"
  have "filter_mset (\<lambda>t. uncounted (snd t)) (futures c) = {#}"
  proof -
    have "filter_mset running (futures c) = {#}"
      using idle reachable_done[OF r] by auto
    then have "\<not> running t" if "t \<in># futures c" for t
      using that unfolding filter_mset_eq_mempty_iff by blast
    moreover have "running t" if "uncounted (snd t)" for t
      using that by (cases "snd t") (simp_all add: running_def)
    ultimately have "\<not> uncounted (snd t)" if "t \<in># futures c" for t
      using that by blast
    then show ?thesis
      by simp
  qed
  with reachable_count_inv[OF r]
  have "size (stats (shared c)) + length ?raised = card (visited (shared c))"
    by (simp add: count_inv_def)
  then have sum: "(\<Sum>k \<in> set_mset (stats (shared c)). count (stats (shared c)) k) + length ?raised
      = card (visited (shared c))"
    by (simp add: size_multiset_overloaded_eq)
  have "?raised = []" if "\<forall>u \<in> visited (shared c). \<not> uncaught (get u)"
    using that requests_visited[OF r] by (auto simp: filter_empty_conv)
  moreover have "?raised = []" if "phase c = Done"
  proof -
    have "futures c = {#}" using reachable_done[OF r that] by simp
    with reachable_raise_inv[OF r] show ?thesis by (simp add: raise_inv_def)
  qed
  ultimately show ?thesis using sum by auto
qed

theorem histogram_counts_visited_witness:
  "reachable example_get ''http://h'' 0 10 False example_done
   \<and> phase example_done = Done
   \<and> (\<Sum>k \<in> set_mset (stats (shared example_done)). count (stats (shared example_done)) k)
       = card (visited (shared example_done))
   \<and> card (visited (shared example_done)) = 1"
proof -
  have d: "phase example_done = Done"
    by (simp add: example_done_def example_state_def)
  have "card (visited (shared example_done)) = 1"
    by (simp add: example_done_def example_state_def)
  then show ?thesis
    using histogram_counts_visited [OF example_reachable disjI2, OF d] example_reachable d
    by simp
qed

text \<open>
  Claim C10 as stated fails: on the site whose client raises an exception that is not a
  \<open>RequestException\<close>, the crawl has stopped, no task occupies a worker, the start page is
  visited, and the histogram is empty.
\<close>

theorem histogram_misses_uncaught:
  "reachable failing_get ''http://h'' 0 10 False example_failed
   \<and> filter_mset running (futures example_failed) = {#}
   \<and> visited (shared example_failed) = {''http://h''}
   \<and> stats (shared example_failed) = {#}
   \<and> size (stats (shared example_failed)) \<noteq> card (visited (shared example_failed))"
  using example_failed_reachable
  by (simp add: example_failed_def example_state_def running_def)

end
